theory Spec2Isabelle
  imports Main "HOL-Library.Word"
begin

unbundle bit_operations_syntax

section \<open>Common types\<close>

text \<open>
  \<^verbatim>\<open>size_t\<close> is the 64-bit unsigned integer of the target platform; its arithmetic
  wraps modulo \<open>2 ^ 64\<close>. C++ exceptions are values of the type \<open>exn\<close>; a function that
  can throw returns \<open>exn + 'a\<close> with \<open>Inl\<close> for the exception.
\<close>

type_synonym size_t = "64 word"
type_synonym uint8_t = "8 word"
type_synonym uint32_t = "32 word"
type_synonym uint64_t = "64 word"

datatype exn =
    InvalidArgument string
  | OutOfRange string
  | LogicError string
  | AssertionFailure string
  | DecodeFailure string

section \<open>GzipBlockFinder (src/pragzip/GzipBlockFinder.hpp)\<close>

text \<open>
  Modelled from the spec: the literal \<^verbatim>\<open>32_Ki\<close> comes from common.hpp, which is not among
  the sources; the spec calls the bound "32 KiB", so the literal is \<open>32 * 1024\<close>.
\<close>

definition Ki32 :: size_t where
  "Ki32 = 32 * 1024"

definition CHAR_BIT :: size_t where
  "CHAR_BIT = 8"

text \<open>
  The members of the class. \<open>m_bgzfBlockFinder\<close> is represented by the offsets that the
  successive calls of \<^verbatim>\<open>blockfinder::Bgzf::find\<close> are going to return (Bgzf.hpp is not among
  the sources); once they are used up the Bgzf finder reports the end of the file.
\<close>

record GzipBlockFinder =
  m_fileSizeInBits :: size_t
  m_finalized :: bool
  m_spacingInBits :: size_t
  m_blockOffsets :: "size_t list"
  m_isBgzfFile :: bool
  m_bgzfBlockFinder :: "size_t list"
  m_batchFetchCount :: size_t

text \<open>
  The constructor. Its inputs are what it reads from the file reader: the file size in
  bytes, whether the file is a BGZF file with the offsets its Bgzf finder will produce, and
  the outcome of \<^verbatim>\<open>gzip::readHeader\<close> (an error, or the bit position after the header),
  besides the spacing in bytes and the batch size
  \<^verbatim>\<open>max(16, 3 * hardware_concurrency)\<close>.
\<close>

definition GzipBlockFinder_new ::
  "size_t \<Rightarrow> bool \<Rightarrow> size_t list \<Rightarrow> (string + size_t) \<Rightarrow> size_t \<Rightarrow> size_t
    \<Rightarrow> exn + GzipBlockFinder" where
  "GzipBlockFinder_new fileSize isBgzf bgzfOffsets header spacing batch =
     (let fileSizeInBits = fileSize * CHAR_BIT;
          spacingInBits = spacing * CHAR_BIT
      in if spacingInBits < Ki32
         then Inl (InvalidArgument ''A spacing smaller than the window size makes no sense!'')
         else (case header of
                 Inl err \<Rightarrow>
                   Inl (InvalidArgument (''Encountered error while reading gzip header: '' @ err))
               | Inr tell \<Rightarrow>
                   Inr \<lparr> m_fileSizeInBits = fileSizeInBits,
                         m_finalized = False,
                         m_spacingInBits = spacingInBits,
                         m_blockOffsets = [tell],
                         m_isBgzfFile = isBgzf,
                         m_bgzfBlockFinder = (if isBgzf then bgzfOffsets else []),
                         m_batchFetchCount = batch \<rparr>))"

definition size_finder :: "GzipBlockFinder \<Rightarrow> size_t" where
  "size_finder s = of_nat (length (m_blockOffsets s))"

definition finalize :: "GzipBlockFinder \<Rightarrow> GzipBlockFinder" where
  "finalize s = s\<lparr>m_finalized := True\<rparr>"

text \<open>
  \<^verbatim>\<open>std::lower_bound\<close> on the sorted deque: the position of the first element that is not
  smaller than the value, the length of the deque when there is none.
\<close>

definition lower_bound :: "size_t list \<Rightarrow> size_t \<Rightarrow> nat" where
  "lower_bound xs v = length (takeWhile (\<lambda>x. x < v) xs)"

definition insertUnsafe :: "GzipBlockFinder \<Rightarrow> size_t \<Rightarrow> exn + GzipBlockFinder" where
  "insertUnsafe s blockOffset =
     (if blockOffset \<ge> m_fileSizeInBits s then Inr s
      else let match = lower_bound (m_blockOffsets s) blockOffset
           in if match = length (m_blockOffsets s) \<or> m_blockOffsets s ! match \<noteq> blockOffset
              then (if m_finalized s
                    then Inl (InvalidArgument
                                ''Already finalized, may not insert further block offsets!'')
                    else Inr (s\<lparr>m_blockOffsets :=
                                   take match (m_blockOffsets s) @ blockOffset
                                     # drop match (m_blockOffsets s)\<rparr>))
              else Inr s)"

definition insert_finder :: "GzipBlockFinder \<Rightarrow> size_t \<Rightarrow> exn + GzipBlockFinder" where
  "insert_finder s blockOffset = insertUnsafe s blockOffset"

definition setBlockOffsets :: "GzipBlockFinder \<Rightarrow> size_t list \<Rightarrow> GzipBlockFinder" where
  "setBlockOffsets s blockOffsets = finalize (s\<lparr>m_blockOffsets := blockOffsets\<rparr>)"

definition partitionOffsetContainingOffset :: "GzipBlockFinder \<Rightarrow> size_t \<Rightarrow> size_t" where
  "partitionOffsetContainingOffset s blockOffset =
     (blockOffset div m_spacingInBits s) * m_spacingInBits s"

definition firstPartitionIndex :: "GzipBlockFinder \<Rightarrow> size_t" where
  "firstPartitionIndex s = last (m_blockOffsets s) div m_spacingInBits s + 1"

text \<open>
  The loop of \<^verbatim>\<open>gatherMoreBgzfBlocks\<close>, by recursion on the offsets the Bgzf finder still
  has to deliver. \<^verbatim>\<open>get\<close> calls it only while the finder is not finalized, so that
  \<^verbatim>\<open>insertUnsafe\<close> cannot throw there; should it throw, the loop ends with the exception.
\<close>

fun gatherLoop :: "size_t \<Rightarrow> size_t list \<Rightarrow> GzipBlockFinder \<Rightarrow> exn + GzipBlockFinder" where
  "gatherLoop blockNumber [] s = Inr (s\<lparr>m_bgzfBlockFinder := []\<rparr>)"
| "gatherLoop blockNumber (nextOffset # rest) s =
     (if blockNumber + m_batchFetchCount s \<ge> size_finder s
      then (if nextOffset < last (m_blockOffsets s) + m_spacingInBits s
            then gatherLoop blockNumber rest s
            else if nextOffset \<ge> m_fileSizeInBits s
            then Inr (s\<lparr>m_bgzfBlockFinder := rest\<rparr>)
            else (case insertUnsafe s nextOffset of
                    Inl e \<Rightarrow> Inl e
                  | Inr s' \<Rightarrow> gatherLoop blockNumber rest s'))
      else Inr (s\<lparr>m_bgzfBlockFinder := nextOffset # rest\<rparr>))"

definition gatherMoreBgzfBlocks :: "GzipBlockFinder \<Rightarrow> size_t \<Rightarrow> exn + GzipBlockFinder" where
  "gatherMoreBgzfBlocks s blockNumber = gatherLoop blockNumber (m_bgzfBlockFinder s) s"

text \<open>
  \<^verbatim>\<open>get\<close> returns the optional offset together with the finder, which only the BGZF
  path changes. The \<^verbatim>\<open>assert\<close> on the non-empty deque is a branch of its own.
\<close>

definition get_guess :: "GzipBlockFinder \<Rightarrow> size_t \<Rightarrow> exn + size_t option" where
  "get_guess s blockIndex =
     (if blockIndex < size_finder s
      then Inr (Some (m_blockOffsets s ! unat blockIndex))
      else if m_blockOffsets s = []
      then Inl (AssertionFailure ''!m_blockOffsets.empty()'')
      else let blockIndexOutside = blockIndex - size_finder s;
               partitionIndex = firstPartitionIndex s + blockIndexOutside;
               blockOffset = partitionIndex * m_spacingInBits s
           in if blockOffset < m_fileSizeInBits s then Inr (Some blockOffset)
              else if partitionIndex > 0
                      \<and> (partitionIndex - 1) * m_spacingInBits s < m_fileSizeInBits s
              then Inr (Some (m_fileSizeInBits s))
              else Inr None)"

definition get_finder ::
  "GzipBlockFinder \<Rightarrow> size_t \<Rightarrow> (exn + size_t option) \<times> GzipBlockFinder" where
  "get_finder s blockIndex =
     (if m_isBgzfFile s \<and> \<not> m_finalized s
      then (case gatherMoreBgzfBlocks s blockIndex of
              Inl e \<Rightarrow> (Inl e, s)
            | Inr s' \<Rightarrow> (get_guess s' blockIndex, s'))
      else (get_guess s blockIndex, s))"

text \<open>
  \<^verbatim>\<open>find\<close>, with its \<^verbatim>\<open>assert\<close> on the inverse calculation and its
  \<^verbatim>\<open>std::out_of_range\<close>.
\<close>

definition find_finder :: "GzipBlockFinder \<Rightarrow> size_t \<Rightarrow> exn + size_t" where
  "find_finder s encodedBlockOffsetInBits =
     (let match = lower_bound (m_blockOffsets s) encodedBlockOffsetInBits
      in if match \<noteq> length (m_blockOffsets s)
            \<and> m_blockOffsets s ! match = encodedBlockOffsetInBits
         then Inr (of_nat match)
         else if encodedBlockOffsetInBits > last (m_blockOffsets s)
                 \<and> encodedBlockOffsetInBits < m_fileSizeInBits s
                 \<and> encodedBlockOffsetInBits mod m_spacingInBits s = 0
         then (let blockIndex = size_finder s
                     + (encodedBlockOffsetInBits div m_spacingInBits s - firstPartitionIndex s)
               in if (firstPartitionIndex s + (blockIndex - size_finder s)) * m_spacingInBits s
                     = encodedBlockOffsetInBits
                  then Inr blockIndex
                  else Inl (AssertionFailure ''inverse of get''))
         else Inl (OutOfRange ''No block with the specified offset exists in the block finder map!''))"

text \<open>
  The invariant of the class: the deque of confirmed offsets is never empty and strictly
  increasing, the spacing is at least \<^verbatim>\<open>32_Ki\<close> bits, and the deque has fewer than
  \<open>2 ^ 64\<close> elements (its size is a \<^verbatim>\<open>size_t\<close>): until the finder is finalized, all its
  offsets but the first one are below the file size, which is a multiple of 8.
\<close>

definition finderInv :: "GzipBlockFinder \<Rightarrow> bool" where
  "finderInv s \<longleftrightarrow>
     m_blockOffsets s \<noteq> [] \<and> sorted_wrt (<) (m_blockOffsets s)
     \<and> Ki32 \<le> m_spacingInBits s
     \<and> length (m_blockOffsets s) < 2 ^ 64
     \<and> (m_finalized s
        \<or> (m_fileSizeInBits s \<noteq> - 1
           \<and> (\<exists>t. \<forall>x \<in> set (m_blockOffsets s). x < m_fileSizeInBits s \<or> x = t)))"

text \<open>
  The states of a finder that its public interface reaches from the constructor.
  \<^verbatim>\<open>setBlockOffsets\<close> is given what the member comment asks for ("confirmed block offsets in
  order"): a non-empty, strictly increasing vector.
\<close>

inductive reachable :: "GzipBlockFinder \<Rightarrow> bool" where
  reach_new: "GzipBlockFinder_new fileSize isBgzf bgzfOffsets header spacing batch = Inr s
      \<Longrightarrow> reachable s"
| reach_insert: "reachable s \<Longrightarrow> insert_finder s blockOffset = Inr s' \<Longrightarrow> reachable s'"
| reach_finalize: "reachable s \<Longrightarrow> reachable (finalize s)"
| reach_get: "reachable s \<Longrightarrow> get_finder s blockIndex = (r, s') \<Longrightarrow> reachable s'"
| reach_set: "reachable s \<Longrightarrow> blockOffsets \<noteq> [] \<Longrightarrow> sorted_wrt (<) blockOffsets
      \<Longrightarrow> length blockOffsets < 2 ^ 64 \<Longrightarrow> reachable (setBlockOffsets s blockOffsets)"

text \<open>
  The finder of a file of 128 KiB whose gzip header ends at bit 80, constructed with a
  spacing of 32 KiB.
\<close>

definition finder_128KiB :: GzipBlockFinder where
  "finder_128KiB = \<lparr> m_fileSizeInBits = 1048576, m_finalized = False,
      m_spacingInBits = 262144, m_blockOffsets = [80], m_isBgzfFile = False,
      m_bgzfBlockFinder = [], m_batchFetchCount = 16 \<rparr>"

section \<open>CRC-32 (src/pragzip/crc32.hpp and src/pragzip/crc32.cpp)\<close>

text \<open>
  \<^verbatim>\<open>createCRC32LookupTable\<close>: the entry for \<open>n\<close> is eight steps on an
  \<^verbatim>\<open>unsigned long\<close>, stored as a 32-bit value.
\<close>

definition crcTableStep :: "uint64_t \<Rightarrow> uint64_t" where
  "crcTableStep c = (if c AND 1 \<noteq> 0 then 0xEDB88320 XOR drop_bit 1 c else drop_bit 1 c)"

definition createCRC32LookupTable :: "uint32_t list" where
  "createCRC32LookupTable = map (\<lambda>n. ucast ((crcTableStep ^^ 8) (of_nat n))) [0 ..< 256]"

definition CRC32_TABLE :: "uint32_t list" where
  "CRC32_TABLE = createCRC32LookupTable"

definition updateCRC32 :: "uint32_t \<Rightarrow> uint8_t \<Rightarrow> uint32_t" where
  "updateCRC32 crc data = drop_bit 8 crc XOR CRC32_TABLE ! unat ((crc XOR ucast data) AND 0xFF)"

text \<open>
  The table-based CRC-32 of a byte sequence in the words of claim C6: invert the initial
  value, fold \<^verbatim>\<open>updateCRC32\<close> over the bytes in order, invert again.
\<close>

definition crc32_table_reference :: "uint32_t \<Rightarrow> uint8_t list \<Rightarrow> uint32_t" where
  "crc32_table_reference crc bytes = NOT (fold (\<lambda>data c. updateCRC32 c data) bytes (NOT crc))"

text \<open>
  The SSE 4.2 intrinsics \<^verbatim>\<open>_mm_crc32_u8\<close> and \<^verbatim>\<open>_mm_crc32_u32\<close> belong to the compiler,
  not to the repository. They accumulate a CRC with the polynomial of CRC-32C, in
  bit-reflected form \<open>0x82F63B78\<close>, over 8 and 32 bits of data.
\<close>

definition crc32cStep :: "uint32_t \<Rightarrow> uint32_t" where
  "crc32cStep c = (if c AND 1 \<noteq> 0 then 0x82F63B78 XOR drop_bit 1 c else drop_bit 1 c)"

definition mm_crc32_u8 :: "uint32_t \<Rightarrow> uint8_t \<Rightarrow> uint32_t" where
  "mm_crc32_u8 crc v = (crc32cStep ^^ 8) (crc XOR ucast v)"

definition mm_crc32_u32 :: "uint32_t \<Rightarrow> uint32_t \<Rightarrow> uint32_t" where
  "mm_crc32_u32 crc v = (crc32cStep ^^ 32) (crc XOR v)"

text \<open>The \<open>k\<close>-th 32-bit lane of the 16 bytes that \<^verbatim>\<open>_mm_loadu_si128\<close> loads (little endian).\<close>

definition load_u32 :: "uint8_t list \<Rightarrow> nat \<Rightarrow> uint32_t" where
  "load_u32 bytes k =
     ucast (bytes ! (4 * k)) OR push_bit 8 (ucast (bytes ! (4 * k + 1)))
       OR push_bit 16 (ucast (bytes ! (4 * k + 2))) OR push_bit 24 (ucast (bytes ! (4 * k + 3)))"

text \<open>
  \<^verbatim>\<open>crc32_sse4\<close>. The data is the list of the \<open>length\<close> bytes behind the pointer. The first
  loop runs while at least four 32-bit words are left and moves the pointer \<open>words\<close> by 16
  bytes; the second loop reads \<open>length & 3\<close> bytes from where the first one stopped.
\<close>

function sse4_words :: "nat \<Rightarrow> uint8_t list \<Rightarrow> uint32_t \<Rightarrow> uint32_t \<times> uint8_t list" where
  "sse4_words len words crc =
     (if len \<ge> 4
      then (let crc = mm_crc32_u32 crc (load_u32 words 0);
                crc = mm_crc32_u32 crc (load_u32 words 1);
                crc = mm_crc32_u32 crc (load_u32 words 2);
                crc = mm_crc32_u32 crc (load_u32 words 3)
            in sse4_words (len - 4) (drop 16 words) crc)
      else (crc, words))"
  by pat_completeness auto
termination
  by (relation "measure (\<lambda>(len, words, crc). len)") auto

fun sse4_bytes :: "nat \<Rightarrow> uint8_t list \<Rightarrow> uint32_t \<Rightarrow> uint32_t" where
  "sse4_bytes 0 bytes crc = crc"
| "sse4_bytes (Suc len) bytes crc = sse4_bytes len (tl bytes) (mm_crc32_u8 crc (hd bytes))"

definition crc32_sse4 :: "uint32_t \<Rightarrow> uint8_t list \<Rightarrow> uint32_t" where
  "crc32_sse4 crc vec_data =
     (let length = length vec_data;
          len = length div 4;
          crc = crc XOR 0xFFFFFFFF
      in case sse4_words len vec_data crc of
           (crc, bytes) \<Rightarrow>
             (let len = length mod 4;
                  crc = sse4_bytes len bytes crc
              in crc XOR 0xFFFFFFFF))"

section \<open>Precode check with a single lookup table (pragzip::PrecodeCheck::SingleLUT)\<close>

text \<open>
  The enumerators of \<^verbatim>\<open>pragzip::Error\<close> that \<^verbatim>\<open>checkPrecode\<close> returns (Error.hpp is
  not among the sources).
\<close>

datatype Error = NONE | INVALID_CODE_LENGTHS | BLOATING_HUFFMAN_CODING

text \<open>
  \<^verbatim>\<open>nLowestBitsSet<T>( n )\<close> of BitManipulation.hpp, which is not among the sources: the
  value of type \<open>T\<close> whose \<open>n\<close> lowest bits are set. \<^verbatim>\<open>PRECODE_BITS\<close> and
  \<^verbatim>\<open>MAX_PRECODE_COUNT\<close> are the constants 3 and 19 of the deflate format, as the comments
  of the source say (19 codes of 3 bits).
\<close>

definition nLowestBitsSet :: "nat \<Rightarrow> 'a::len word" where
  "nLowestBitsSet n = mask n"

definition PRECODE_BITS :: nat where
  "PRECODE_BITS = 3"

definition MAX_PRECODE_COUNT :: nat where
  "MAX_PRECODE_COUNT = 19"

definition ceilDiv :: "nat \<Rightarrow> nat \<Rightarrow> nat" where
  "ceilDiv a b = (a + b - 1) div b"

type_synonym Histogram = uint32_t

definition MEMBER_BIT_WIDTHS :: "nat list" where
  "MEMBER_BIT_WIDTHS = [5, 1, 2, 3, 4, 5, 5, 4]"

definition MEMBER_OFFSETS :: "nat list" where
  "MEMBER_OFFSETS = map (\<lambda>i. sum_list (take i MEMBER_BIT_WIDTHS)) [0 ..< 8]"

definition OVERFLOW_MEMBER_OFFSET :: nat where
  "OVERFLOW_MEMBER_OFFSET = last MEMBER_OFFSETS + last MEMBER_BIT_WIDTHS"

definition LOWEST_MEMBER_BITS_MASK :: Histogram where
  "LOWEST_MEMBER_BITS_MASK = fold (\<lambda>offset result. result OR push_bit offset 1) MEMBER_OFFSETS 0"

definition OVERFLOW_BITS_MASK :: Histogram where
  "OVERFLOW_BITS_MASK = LOWEST_MEMBER_BITS_MASK OR push_bit OVERFLOW_MEMBER_OFFSET (NOT 0)"

definition getCount :: "Histogram \<Rightarrow> nat \<Rightarrow> uint8_t" where
  "getCount histogram val =
     ucast (drop_bit (MEMBER_OFFSETS ! val) histogram
              AND nLowestBitsSet (MEMBER_BIT_WIDTHS ! val))"

definition setCount :: "Histogram \<Rightarrow> nat \<Rightarrow> uint8_t \<Rightarrow> exn + Histogram" where
  "setCount histogram val count =
     (let bitWidth = MEMBER_BIT_WIDTHS ! val
      in if unat count \<ge> 2 ^ bitWidth
         then Inl (InvalidArgument ''Overflow detected. Cannot set count to given value!'')
         else Inr ((histogram AND NOT (push_bit (MEMBER_OFFSETS ! val) (nLowestBitsSet bitWidth)))
                   OR push_bit (MEMBER_OFFSETS ! val) (ucast count)))"

definition incrementCount :: "Histogram \<Rightarrow> nat \<Rightarrow> Histogram" where
  "incrementCount histogram val =
     (let oldCount = (ucast (getCount histogram val) :: uint32_t);
          newHistogram = histogram + push_bit (MEMBER_OFFSETS ! val) 1
      in if unat oldCount + 1 < 2 ^ (MEMBER_BIT_WIDTHS ! val)
         then newHistogram
         else newHistogram OR push_bit OVERFLOW_MEMBER_OFFSET 1)"

text \<open>
  \<^verbatim>\<open>calculateHistogram<VALUE_BITS, VALUE_COUNT>\<close>: the loop over the values, as a fold over
  their positions.
\<close>

definition calculateHistogramStep :: "nat \<Rightarrow> uint64_t \<Rightarrow> nat \<Rightarrow> Histogram \<Rightarrow> Histogram" where
  "calculateHistogramStep VALUE_BITS vals i histogram =
     (let val = drop_bit (i * VALUE_BITS) vals AND nLowestBitsSet VALUE_BITS
      in if val > 0 then incrementCount histogram (unat val) + 1 else histogram)"

definition calculateHistogram :: "nat \<Rightarrow> nat \<Rightarrow> uint64_t \<Rightarrow> Histogram" where
  "calculateHistogram VALUE_BITS VALUE_COUNT vals =
     fold (calculateHistogramStep VALUE_BITS vals) [0 ..< VALUE_COUNT] 0"

definition createHistogramLUT :: "nat \<Rightarrow> nat \<Rightarrow> Histogram list" where
  "createHistogramLUT VALUE_BITS VALUE_COUNT =
     map (\<lambda>i. calculateHistogram VALUE_BITS VALUE_COUNT (of_nat i))
       [0 ..< 2 ^ (VALUE_COUNT * VALUE_BITS)]"

text \<open>
  \<^verbatim>\<open>packHistogram\<close> takes a \<^verbatim>\<open>pragzip::deflate::precode::Histogram\<close>, the counts of the
  code lengths 1 to 7 (precode.hpp is not among the sources). The loop carries the packed
  histogram and the 8-bit \<^verbatim>\<open>nonZeroCount\<close>; \<open>None\<close> is \<^verbatim>\<open>std::nullopt\<close>.
\<close>

fun packLoop :: "nat \<Rightarrow> uint8_t list \<Rightarrow> Histogram \<Rightarrow> uint8_t \<Rightarrow> exn + (Histogram \<times> uint8_t) option" where
  "packLoop i [] packedHistogram nonZeroCount = Inr (Some (packedHistogram, nonZeroCount))"
| "packLoop i (count # rest) packedHistogram nonZeroCount =
     (let depth = i + 1;
          nonZeroCount = nonZeroCount + count
      in if unat count \<ge> 2 ^ (MEMBER_BIT_WIDTHS ! depth) then Inr None
         else (case setCount packedHistogram depth count of
                 Inl e \<Rightarrow> Inl e
               | Inr packedHistogram \<Rightarrow> packLoop (i + 1) rest packedHistogram nonZeroCount))"

definition packHistogram :: "uint8_t list \<Rightarrow> exn + Histogram option" where
  "packHistogram histogram =
     (case packLoop 0 histogram 0 0 of
        Inl e \<Rightarrow> Inl e
      | Inr None \<Rightarrow> Inr None
      | Inr (Some (packedHistogram, nonZeroCount)) \<Rightarrow>
          (if unat nonZeroCount \<ge> 2 ^ (MEMBER_BIT_WIDTHS ! 0)
           then Inl (InvalidArgument ''More total non-zero counts than permitted!'')
           else (case setCount packedHistogram 0 nonZeroCount of
                   Inl e \<Rightarrow> Inl e
                 | Inr h \<Rightarrow> Inr (Some h))))"

definition PRECODE_X4_TO_HISTOGRAM_LUT :: "Histogram list" where
  "PRECODE_X4_TO_HISTOGRAM_LUT = createHistogramLUT PRECODE_BITS 4"

definition HISTOGRAM_TO_LOOK_UP_BITS :: nat where
  "HISTOGRAM_TO_LOOK_UP_BITS = last MEMBER_OFFSETS - hd MEMBER_BIT_WIDTHS + last MEMBER_BIT_WIDTHS"

text \<open>
  \<^verbatim>\<open>PRECODE_HISTOGRAM_VALID_LUT\<close> is an array of \<open>2 ^ 24 div 64\<close> 64-bit elements, filled
  from \<^verbatim>\<open>pragzip::deflate::precode::VALID_HISTOGRAMS\<close>. That table is in precode.hpp, which
  is not among the sources, so it is a parameter here. The element at an index is the
  bitwise or of the bits that the loop sets in it. A histogram that \<^verbatim>\<open>packHistogram\<close>
  rejects with an exception would stop the compilation; it sets no bit here.
\<close>

definition validLUTStep :: "nat \<Rightarrow> uint8_t list \<Rightarrow> uint64_t \<Rightarrow> uint64_t" where
  "validLUTStep elementIndex histogram element =
     (case packHistogram histogram of
        Inr (Some packedHistogram) \<Rightarrow>
          (let histogramToSetValid = drop_bit (hd MEMBER_BIT_WIDTHS) packedHistogram
           in if unat histogramToSetValid div 64 = elementIndex
              then element OR push_bit (unat histogramToSetValid mod 64) 1
              else element)
      | _ \<Rightarrow> element)"

definition PRECODE_HISTOGRAM_VALID_LUT :: "uint8_t list list \<Rightarrow> nat \<Rightarrow> uint64_t" where
  "PRECODE_HISTOGRAM_VALID_LUT VALID_HISTOGRAMS elementIndex =
     fold (validLUTStep elementIndex) VALID_HISTOGRAMS 0"

definition POWER_OF_TWO_SPECIAL_CASES :: "Histogram list" where
  "POWER_OF_TWO_SPECIAL_CASES =
     [ NOT 0, 1, 2, NOT 0, 8, NOT 0, NOT 0, NOT 0,
       64, NOT 0, NOT 0, NOT 0, NOT 0, NOT 0, NOT 0, NOT 0,
       1024 ] @ replicate 15 0"

text \<open>
  The loop of \<^verbatim>\<open>checkPrecode\<close> over the five chunks of four codes. Its state is
  \<^verbatim>\<open>bitLengthFrequencies\<close>, \<^verbatim>\<open>overflowsInSum\<close> and \<^verbatim>\<open>overflowsInLUT\<close>.
\<close>

definition precodeChunkStep ::
  "uint64_t \<Rightarrow> nat \<Rightarrow> Histogram \<times> Histogram \<times> Histogram \<Rightarrow> Histogram \<times> Histogram \<times> Histogram" where
  "precodeChunkStep precodeBits chunk st =
     (case st of (bitLengthFrequencies, overflowsInSum, overflowsInLUT) \<Rightarrow>
        let CACHED_BITS = PRECODE_BITS * 4;
            CHUNK_COUNT = ceilDiv MAX_PRECODE_COUNT 4;
            precodeChunk = drop_bit (chunk * CACHED_BITS) precodeBits;
            precodeChunk = (if chunk \<noteq> CHUNK_COUNT - 1
                            then precodeChunk AND nLowestBitsSet CACHED_BITS
                            else precodeChunk);
            partialHistogram = PRECODE_X4_TO_HISTOGRAM_LUT ! unat precodeChunk;
            carrylessSum = bitLengthFrequencies XOR partialHistogram;
            bitLengthFrequencies = bitLengthFrequencies + partialHistogram
        in (bitLengthFrequencies,
            overflowsInSum OR (carrylessSum XOR bitLengthFrequencies),
            overflowsInLUT OR partialHistogram))"

definition precodeSums :: "uint64_t \<Rightarrow> uint64_t \<Rightarrow> Histogram \<times> Histogram \<times> Histogram" where
  "precodeSums next4Bits next57Bits =
     (let codeLengthCount = 4 + next4Bits;
          precodeBits = next57Bits AND nLowestBitsSet (unat codeLengthCount * PRECODE_BITS)
      in fold (precodeChunkStep precodeBits) [0 ..< ceilDiv MAX_PRECODE_COUNT 4] (0, 0, 0))"

definition histogramToLookUp :: "Histogram \<Rightarrow> Histogram" where
  "histogramToLookUp bitLengthFrequencies =
     drop_bit 5 bitLengthFrequencies AND nLowestBitsSet HISTOGRAM_TO_LOOK_UP_BITS"

definition nonZeroCount :: "Histogram \<Rightarrow> Histogram" where
  "nonZeroCount bitLengthFrequencies = bitLengthFrequencies AND nLowestBitsSet 5"

text \<open>
  The two overflow tests of \<^verbatim>\<open>checkPrecode\<close>: an overflow bit of the sum, or an overflow
  bit of a partial histogram loaded from the lookup table.
\<close>

definition overflowDetected :: "Histogram \<Rightarrow> Histogram \<Rightarrow> bool" where
  "overflowDetected overflowsInSum overflowsInLUT \<longleftrightarrow>
     overflowsInSum AND OVERFLOW_BITS_MASK \<noteq> 0
     \<or> overflowsInLUT AND push_bit OVERFLOW_MEMBER_OFFSET (NOT 0) \<noteq> 0"

definition checkPrecode :: "uint8_t list list \<Rightarrow> uint64_t \<Rightarrow> uint64_t \<Rightarrow> Error" where
  "checkPrecode VALID_HISTOGRAMS next4Bits next57Bits =
     (case precodeSums next4Bits next57Bits of
        (bitLengthFrequencies, overflowsInSum, overflowsInLUT) \<Rightarrow>
          if POWER_OF_TWO_SPECIAL_CASES ! unat (nonZeroCount bitLengthFrequencies)
               = histogramToLookUp bitLengthFrequencies
          then NONE
          else if overflowDetected overflowsInSum overflowsInLUT
          then INVALID_CODE_LENGTHS
          else let bitToLookUp = (push_bit (unat (histogramToLookUp bitLengthFrequencies) mod 64) 1
                                   :: uint64_t);
                   INDEX_BIT_COUNT = HISTOGRAM_TO_LOOK_UP_BITS - 6;
                   elementIndex = (histogramToLookUp bitLengthFrequencies div 64)
                                    AND nLowestBitsSet INDEX_BIT_COUNT
               in if PRECODE_HISTOGRAM_VALID_LUT VALID_HISTOGRAMS (unat elementIndex)
                       AND bitToLookUp = 0
                  then BLOATING_HUFFMAN_CODING
                  else NONE)"

text \<open>
  Modelled from the spec: the precode input and the "histograms corresponding to valid
  complete Huffman trees". The input is the first \<open>4 + next4Bits\<close> code lengths of 3 bits;
  its histogram counts the code lengths 1 to 7; the tree of a histogram is complete when
  its codes fill the code space, that is when the sum of \<open>2 ^ (7 - length)\<close> over the codes
  is \<open>2 ^ 7\<close>.
\<close>

definition precodeLengths :: "uint64_t \<Rightarrow> uint64_t \<Rightarrow> nat list" where
  "precodeLengths next4Bits next57Bits =
     map (\<lambda>i. unat (drop_bit (i * PRECODE_BITS) next57Bits AND 7)) [0 ..< 4 + unat next4Bits]"

definition lengthHistogram :: "nat list \<Rightarrow> nat list" where
  "lengthHistogram lengths = map (\<lambda>depth. count_list lengths depth) [1 ..< 8]"

definition completeHuffmanTree :: "nat list \<Rightarrow> bool" where
  "completeHuffmanTree histogram \<longleftrightarrow>
     sum_list (map (\<lambda>depth. histogram ! (depth - 1) * 2 ^ (7 - depth)) [1 ..< 8]) = 2 ^ 7"

section \<open>LRU cache\<close>

text \<open>
  Modelled from the spec: \<^verbatim>\<open>Cache<Key, Value>\<close> of Cache.hpp, which is not among the
  sources. The spec gives it a capacity and the operations get, insert, test, touch, evict,
  clear, shrinkTo and nextNthEviction (the key that would be evicted next), with eviction
  of the least recently used entry. The entries are kept in the order of their last use,
  the least recently used first. The statistics of the cache are left out.
\<close>

record ('k, 'v) Cache =
  c_capacity :: nat
  c_entries :: "('k \<times> 'v) list"

definition cache_new :: "nat \<Rightarrow> ('k, 'v) Cache" where
  "cache_new maxCacheSize = \<lparr> c_capacity = maxCacheSize, c_entries = [] \<rparr>"

definition cache_test :: "('k, 'v) Cache \<Rightarrow> 'k \<Rightarrow> bool" where
  "cache_test c key \<longleftrightarrow> map_of (c_entries c) key \<noteq> None"

definition cache_touch :: "('k, 'v) Cache \<Rightarrow> 'k \<Rightarrow> ('k, 'v) Cache" where
  "cache_touch c key =
     (case map_of (c_entries c) key of
        None \<Rightarrow> c
      | Some v \<Rightarrow> c\<lparr>c_entries := filter (\<lambda>e. fst e \<noteq> key) (c_entries c) @ [(key, v)]\<rparr>)"

definition cache_get :: "('k, 'v) Cache \<Rightarrow> 'k \<Rightarrow> 'v option \<times> ('k, 'v) Cache" where
  "cache_get c key =
     (case map_of (c_entries c) key of
        None \<Rightarrow> (None, c)
      | Some v \<Rightarrow> (Some v, cache_touch c key))"

definition cache_shrinkTo :: "('k, 'v) Cache \<Rightarrow> nat \<Rightarrow> ('k, 'v) Cache" where
  "cache_shrinkTo c newSize = c\<lparr>c_entries := drop (length (c_entries c) - newSize) (c_entries c)\<rparr>"

definition cache_insert :: "('k, 'v) Cache \<Rightarrow> 'k \<Rightarrow> 'v \<Rightarrow> ('k, 'v) Cache" where
  "cache_insert c key v =
     (if c_capacity c = 0 then c
      else if cache_test c key
      then c\<lparr>c_entries := filter (\<lambda>e. fst e \<noteq> key) (c_entries c) @ [(key, v)]\<rparr>
      else (let c' = cache_shrinkTo c (c_capacity c - 1)
            in c'\<lparr>c_entries := c_entries c' @ [(key, v)]\<rparr>))"

definition cache_evict :: "('k, 'v) Cache \<Rightarrow> 'k \<Rightarrow> ('k, 'v) Cache" where
  "cache_evict c key = c\<lparr>c_entries := filter (\<lambda>e. fst e \<noteq> key) (c_entries c)\<rparr>"

definition cache_clear :: "('k, 'v) Cache \<Rightarrow> ('k, 'v) Cache" where
  "cache_clear c = c\<lparr>c_entries := []\<rparr>"

definition cache_nextNthEviction :: "('k, 'v) Cache \<Rightarrow> nat \<Rightarrow> 'k option" where
  "cache_nextNthEviction c countToEmplaceHypothetically =
     (let free = c_capacity c - length (c_entries c)
      in if countToEmplaceHypothetically = 0 \<or> countToEmplaceHypothetically \<le> free then None
         else if countToEmplaceHypothetically - free - 1 < length (c_entries c)
         then Some (fst (c_entries c ! (countToEmplaceHypothetically - free - 1)))
         else None)"

section \<open>ThreadPool\<close>

text \<open>
  \<^verbatim>\<open>m_tasks\<close> is a \<^verbatim>\<open>std::map\<close> from the priority to a deque of tasks: an association
  list in ascending order of the priority. The worker threads are represented by their
  number; what one worker does when it chooses its next task is \<open>workerTake\<close>.
\<close>

record 't ThreadPool =
  m_threadPoolRunning :: bool
  m_tasks :: "(int \<times> 't list) list"
  m_threads :: nat

definition ThreadPool_new :: "nat \<Rightarrow> 't ThreadPool" where
  "ThreadPool_new nThreads = \<lparr> m_threadPoolRunning = True, m_tasks = [], m_threads = nThreads \<rparr>"


text \<open>\<^verbatim>\<open>m_tasks[priority].emplace_back( task )\<close>\<close>

fun emplace_back_at :: "int \<Rightarrow> 't \<Rightarrow> (int \<times> 't list) list \<Rightarrow> (int \<times> 't list) list" where
  "emplace_back_at priority task [] = [(priority, [task])]"
| "emplace_back_at priority task ((p, tasks) # rest) =
     (if priority = p then (p, tasks @ [task]) # rest
      else if priority < p then (priority, [task]) # (p, tasks) # rest
      else (p, tasks) # emplace_back_at priority task rest)"

definition submit :: "'t ThreadPool \<Rightarrow> 't \<Rightarrow> int \<Rightarrow> 't ThreadPool" where
  "submit pool task priority = pool\<lparr>m_tasks := emplace_back_at priority task (m_tasks pool)\<rparr>"

definition size_pool :: "'t ThreadPool \<Rightarrow> nat" where
  "size_pool pool = m_threads pool"

definition unprocessedTasksCount :: "'t ThreadPool \<Rightarrow> int option \<Rightarrow> nat" where
  "unprocessedTasksCount pool priority =
     (case priority of
        Some p \<Rightarrow> (case map_of (m_tasks pool) p of None \<Rightarrow> 0 | Some tasks \<Rightarrow> length tasks)
      | None \<Rightarrow> fold (\<lambda>tasks sum. sum + length (snd tasks)) (m_tasks pool) 0)"

definition hasUnprocessedTasks :: "'t ThreadPool \<Rightarrow> bool" where
  "hasUnprocessedTasks pool \<longleftrightarrow> (\<exists>tasks \<in> set (m_tasks pool). snd tasks \<noteq> [])"

text \<open>
  The choice of \<^verbatim>\<open>workerMain\<close>: the front of the first non-empty deque in the order of
  the map, which is removed from the deque.
\<close>

fun takeFirstTask :: "(int \<times> 't list) list \<Rightarrow> ('t \<times> (int \<times> 't list) list) option" where
  "takeFirstTask [] = None"
| "takeFirstTask ((p, []) # rest) =
     (case takeFirstTask rest of
        None \<Rightarrow> None
      | Some (task, rest') \<Rightarrow> Some (task, (p, []) # rest'))"
| "takeFirstTask ((p, task # tasks) # rest) = Some (task, (p, tasks) # rest)"

definition workerTake :: "'t ThreadPool \<Rightarrow> ('t \<times> 't ThreadPool) option" where
  "workerTake pool =
     (if \<not> m_threadPoolRunning pool then None
      else (case takeFirstTask (m_tasks pool) of
              None \<Rightarrow> None
            | Some (task, tasks') \<Rightarrow> Some (task, pool\<lparr>m_tasks := tasks'\<rparr>)))"

fun workersTake :: "nat \<Rightarrow> 't ThreadPool \<Rightarrow> 't ThreadPool" where
  "workersTake 0 pool = pool"
| "workersTake (Suc n) pool =
     (case workerTake pool of None \<Rightarrow> pool | Some (task, pool') \<Rightarrow> workersTake n pool')"

section \<open>BlockFetcher\<close>

text \<open>
  The task that \<^verbatim>\<open>BlockFetcher\<close> submits to the thread pool is the closure
  \<^verbatim>\<open>decodeAndMeasureBlock( blockOffset, nextBlockOffset )\<close>. A \<^verbatim>\<open>std::future\<close> is the task
  it waits for, the number of tasks that were submitted before this one (its ticket), and
  the number of polls (\<^verbatim>\<open>wait_for\<close>) that still find it not ready: every decode task is
  taken to finish. An invalid future is \<open>None\<close>.
\<close>

record decodeTask =
  t_blockOffset :: size_t
  t_nextBlockOffset :: size_t

record future =
  f_task :: decodeTask
  f_ticket :: nat
  f_pending :: nat

text \<open>
  A worker pops a task from the queue before it runs it (\<^verbatim>\<open>workerMain\<close>), and the packaged
  task makes its future ready when it has run. \<^verbatim>\<open>BlockFetcher\<close> submits its decode tasks
  with the priority 0, and the workers pop the tasks of one priority in the order of their
  submission. So when the future with a given ticket is found ready, the queue holds at most
  the tasks that were submitted after its task: the workers have taken the others.
\<close>

definition taskTaken :: "nat \<Rightarrow> nat \<Rightarrow> 't ThreadPool \<Rightarrow> 't ThreadPool" where
  "taskTaken submitted ticket pool =
     workersTake (unprocessedTasksCount pool None - (submitted - Suc ticket)) pool"

text \<open>
  \<^verbatim>\<open>future.wait_for( ... ) == std::future_status::ready\<close>, with the future and the pool
  after the poll; \<open>submitted\<close> is the number of tasks submitted so far.
\<close>

definition wait_for :: "nat \<Rightarrow> future \<Rightarrow> 't ThreadPool \<Rightarrow> bool \<times> future \<times> 't ThreadPool" where
  "wait_for submitted fut pool =
     (if f_pending fut = 0 then (True, fut, taskTaken submitted (f_ticket fut) pool)
      else (False, fut\<lparr>f_pending := f_pending fut - 1\<rparr>, pool))"

text \<open>
  The template parameters and the pure virtual \<^verbatim>\<open>decodeBlock\<close> are the fields of an
  environment: the block finder (\<^verbatim>\<open>find\<close> may throw, \<^verbatim>\<open>get\<close> may change the finder; its
  timeout is left out), the fetching strategy of Prefetcher.hpp, and the number of
  available cores.
\<close>

record ('v, 'f, 's) Env =
  decodeBlock :: "size_t \<Rightarrow> size_t \<Rightarrow> exn + 'v"
  bf_find :: "'f \<Rightarrow> size_t \<Rightarrow> exn + size_t"
  bf_get :: "'f \<Rightarrow> size_t \<Rightarrow> size_t option \<times> 'f"
  bf_finalized :: "'f \<Rightarrow> bool"
  bf_size :: "'f \<Rightarrow> size_t"
  fs_fetch :: "'s \<Rightarrow> size_t \<Rightarrow> 's"
  fs_prefetch :: "'s \<Rightarrow> nat \<Rightarrow> size_t list"
  fs_isSequential :: "'s \<Rightarrow> bool"
  availableCores :: size_t

text \<open>
  What the worker threads do during one call of \<^verbatim>\<open>get\<close> is its schedule: how many polls
  find a task submitted in this call not ready (for the on-demand task, and for the prefetch
  of an offset), and how many more tasks the workers have popped from the queue, without
  having run them to the end, when \<^verbatim>\<open>prefetchNewBlocks\<close> counts the unprocessed tasks, the
  only place where \<^verbatim>\<open>BlockFetcher\<close> reads the queue.
\<close>

record Schedule =
  onDemandPending :: nat
  prefetchPending :: "size_t \<Rightarrow> nat"
  workerTakes :: nat

text \<open>
  An entry of the history of submissions: the offset of the submitted task and where a
  result for this offset was when \<^verbatim>\<open>m_threadPool.submit\<close> was called. The history is not a
  member of the class; it records the calls of \<^verbatim>\<open>submit\<close>.
\<close>

record submission =
  sub_offset :: size_t
  sub_priority :: int
  sub_inPrefetching :: bool
  sub_inCache :: bool
  sub_inPrefetchCache :: bool

record ('v, 'f, 's) BlockFetcher =
  m_parallelization :: size_t
  m_blockFinder :: 'f
  m_cache :: "(size_t, 'v) Cache"
  m_prefetchCache :: "(size_t, 'v) Cache"
  m_fetchingStrategy :: 's
  m_prefetching :: "(size_t \<times> future) list"
  m_threadPool :: "decodeTask ThreadPool"
  m_prefetchCount :: nat
  submissions :: "submission list"

text \<open>
  The constructor; \<open>None\<close> for the block finder is the null pointer, and the fetching
  strategy starts in the given state.
\<close>

definition BlockFetcher_new ::
  "('v, 'f, 's) Env \<Rightarrow> 'f option \<Rightarrow> size_t \<Rightarrow> 's \<Rightarrow> exn + ('v, 'f, 's) BlockFetcher" where
  "BlockFetcher_new env blockFinder parallelization strategy =
     (let par = (if parallelization = 0 then max 1 (availableCores env) else parallelization)
      in case blockFinder of
           None \<Rightarrow> Inl (InvalidArgument ''BlockFinder must be valid!'')
         | Some finder \<Rightarrow>
             Inr \<lparr> m_parallelization = par,
                   m_blockFinder = finder,
                   m_cache = cache_new (unat (max 16 par)),
                   m_prefetchCache = cache_new (unat (2 * par)),
                   m_fetchingStrategy = strategy,
                   m_prefetching = [],
                   m_threadPool = ThreadPool_new (unat par),
                   m_prefetchCount = 0,
                   submissions = [] \<rparr>)"

definition clearCache :: "('v, 'f, 's) BlockFetcher \<Rightarrow> ('v, 'f, 's) BlockFetcher" where
  "clearCache s = s\<lparr>m_cache := cache_clear (m_cache s)\<rparr>"

definition insertIntoCache ::
  "('v, 'f, 's) Env \<Rightarrow> ('v, 'f, 's) BlockFetcher \<Rightarrow> size_t \<Rightarrow> 'v \<Rightarrow> ('v, 'f, 's) BlockFetcher" where
  "insertIntoCache env s blockOffset blockData =
     (let s1 = (if fs_isSequential env (m_fetchingStrategy s)
                then s\<lparr>m_cache := cache_clear (m_cache s)\<rparr> else s)
      in s1\<lparr>m_cache := cache_insert (m_cache s1) blockOffset blockData\<rparr>)"

definition isInCacheOrQueue :: "('v, 'f, 's) BlockFetcher \<Rightarrow> size_t \<Rightarrow> bool" where
  "isInCacheOrQueue s blockOffset \<longleftrightarrow>
     map_of (m_prefetching s) blockOffset \<noteq> None
     \<or> cache_test (m_cache s) blockOffset
     \<or> cache_test (m_prefetchCache s) blockOffset"

definition takeFromPrefetchQueue ::
  "('v, 'f, 's) BlockFetcher \<Rightarrow> size_t \<Rightarrow> future option \<times> ('v, 'f, 's) BlockFetcher" where
  "takeFromPrefetchQueue s blockOffset =
     (case map_of (m_prefetching s) blockOffset of
        None \<Rightarrow> (None, s)
      | Some resultFuture \<Rightarrow>
          (Some resultFuture,
           s\<lparr>m_prefetching := filter (\<lambda>e. fst e \<noteq> blockOffset) (m_prefetching s)\<rparr>))"

definition getFromCaches ::
  "('v, 'f, 's) Env \<Rightarrow> ('v, 'f, 's) BlockFetcher \<Rightarrow> size_t
    \<Rightarrow> ('v option \<times> future option) \<times> ('v, 'f, 's) BlockFetcher" where
  "getFromCaches env s blockOffset =
     (case takeFromPrefetchQueue s blockOffset of
        (Some resultFuture, s1) \<Rightarrow> ((None, Some resultFuture), s1)
      | (None, s1) \<Rightarrow>
          (case cache_get (m_cache s1) blockOffset of
             (Some result, cache') \<Rightarrow> ((Some result, None), s1\<lparr>m_cache := cache'\<rparr>)
           | (None, cache') \<Rightarrow>
               (let s2 = s1\<lparr>m_cache := cache'\<rparr>
                in case cache_get (m_prefetchCache s2) blockOffset of
                     (None, prefetchCache') \<Rightarrow>
                       ((None, None), s2\<lparr>m_prefetchCache := prefetchCache'\<rparr>)
                   | (Some result, prefetchCache') \<Rightarrow>
                       (let s3 = s2\<lparr>m_prefetchCache := cache_evict prefetchCache' blockOffset\<rparr>
                        in ((Some result, None), insertIntoCache env s3 blockOffset result)))))"

text \<open>
  Every call of \<^verbatim>\<open>m_threadPool.submit\<close> of the class goes through \<open>submitTask\<close>, which
  also writes the history.
\<close>

definition submitTask ::
  "('v, 'f, 's) BlockFetcher \<Rightarrow> decodeTask \<Rightarrow> int \<Rightarrow> ('v, 'f, 's) BlockFetcher" where
  "submitTask s task priority =
     s\<lparr>m_threadPool := submit (m_threadPool s) task priority,
       submissions := submissions s @
         [\<lparr> sub_offset = t_blockOffset task,
            sub_priority = priority,
            sub_inPrefetching = (map_of (m_prefetching s) (t_blockOffset task) \<noteq> None),
            sub_inCache = cache_test (m_cache s) (t_blockOffset task),
            sub_inPrefetchCache = cache_test (m_prefetchCache s) (t_blockOffset task) \<rparr>]\<rparr>"

definition maxSize :: size_t where
  "maxSize = - 1"

definition submitOnDemandTask ::
  "Schedule \<Rightarrow> ('v, 'f, 's) BlockFetcher \<Rightarrow> size_t \<Rightarrow> size_t option
    \<Rightarrow> future \<times> ('v, 'f, 's) BlockFetcher" where
  "submitOnDemandTask sched s blockOffset nextBlockOffset =
     (let task = \<lparr> t_blockOffset = blockOffset,
                   t_nextBlockOffset = (case nextBlockOffset of Some n \<Rightarrow> n | None \<Rightarrow> maxSize) \<rparr>
      in (\<lparr> f_task = task, f_ticket = length (submissions s),
             f_pending = onDemandPending sched \<rparr>,
          submitTask s task 0))"

text \<open>
  \<^verbatim>\<open>processReadyPrefetches\<close>: the loop over \<^verbatim>\<open>m_prefetching\<close> in the order of the map,
  which polls every future once. The result of a ready future is that of \<^verbatim>\<open>decodeBlock\<close>;
  if it is an exception, the \<^verbatim>\<open>catch ( ... )\<close> drops it.
\<close>

fun processLoop ::
  "('v, 'f, 's) Env \<Rightarrow> nat \<Rightarrow> (size_t \<times> future) list \<Rightarrow> (size_t, 'v) Cache
    \<Rightarrow> decodeTask ThreadPool
    \<Rightarrow> (size_t \<times> future) list \<times> (size_t, 'v) Cache \<times> decodeTask ThreadPool" where
  "processLoop env submitted [] prefetchCache pool = ([], prefetchCache, pool)"
| "processLoop env submitted ((prefetchedBlockOffset, prefetchedFuture) # rest) prefetchCache pool =
     (case wait_for submitted prefetchedFuture pool of
        (ready, polledFuture, pool') \<Rightarrow>
          if ready
          then (case decodeBlock env (t_blockOffset (f_task prefetchedFuture))
                       (t_nextBlockOffset (f_task prefetchedFuture)) of
                  Inr result \<Rightarrow>
                    processLoop env submitted rest
                      (cache_insert prefetchCache prefetchedBlockOffset result) pool'
                | Inl e \<Rightarrow> processLoop env submitted rest prefetchCache pool')
          else (case processLoop env submitted rest prefetchCache pool' of
                  (rest', prefetchCache', pool'') \<Rightarrow>
                    ((prefetchedBlockOffset, polledFuture) # rest', prefetchCache', pool'')))"

definition processReadyPrefetches ::
  "('v, 'f, 's) Env \<Rightarrow> ('v, 'f, 's) BlockFetcher \<Rightarrow> ('v, 'f, 's) BlockFetcher" where
  "processReadyPrefetches env s =
     (case processLoop env (length (submissions s)) (m_prefetching s) (m_prefetchCache s)
             (m_threadPool s) of
        (prefetching', prefetchCache', pool') \<Rightarrow>
          s\<lparr>m_prefetching := prefetching', m_prefetchCache := prefetchCache',
            m_threadPool := pool'\<rparr>)"

definition threadPoolSaturated :: "('v, 'f, 's) BlockFetcher \<Rightarrow> bool" where
  "threadPoolSaturated s \<longleftrightarrow> length (m_prefetching s) + 1 \<ge> size_pool (m_threadPool s)"

text \<open>
  The first loop of \<^verbatim>\<open>prefetchNewBlocks\<close>, which fills \<^verbatim>\<open>blockOffsetsToPrefetch\<close>. The
  vector is constructed with as many zeros as there are indexes to prefetch, and the loop
  appends to it.
\<close>

fun offsetsLoop ::
  "('v, 'f, 's) Env \<Rightarrow> (size_t \<Rightarrow> size_t) option \<Rightarrow> size_t list \<Rightarrow> 'f \<Rightarrow> size_t list
    \<Rightarrow> size_t list \<times> 'f" where
  "offsetsLoop env getPartitionOffsetFromOffset [] finder blockOffsetsToPrefetch =
     (blockOffsetsToPrefetch, finder)"
| "offsetsLoop env getPartitionOffsetFromOffset (blockIndexToPrefetch # rest) finder
       blockOffsetsToPrefetch =
     (case bf_get env finder blockIndexToPrefetch of
        (None, finder') \<Rightarrow>
          offsetsLoop env getPartitionOffsetFromOffset rest finder' blockOffsetsToPrefetch
      | (Some blockOffset, finder') \<Rightarrow>
          offsetsLoop env getPartitionOffsetFromOffset rest finder'
            (blockOffsetsToPrefetch @ [blockOffset] @
              (case getPartitionOffsetFromOffset of
                 None \<Rightarrow> []
               | Some partitionOffset \<Rightarrow>
                   (if blockOffset \<noteq> partitionOffset blockOffset
                    then [partitionOffset blockOffset] else []))))"

definition touchInCacheIfExists ::
  "size_t \<Rightarrow> ('v, 'f, 's) BlockFetcher \<Rightarrow> ('v, 'f, 's) BlockFetcher" where
  "touchInCacheIfExists prefetchBlockOffset s =
     (let s1 = (if cache_test (m_prefetchCache s) prefetchBlockOffset
                then s\<lparr>m_prefetchCache := cache_touch (m_prefetchCache s) prefetchBlockOffset\<rparr>
                else s)
      in if cache_test (m_cache s1) prefetchBlockOffset
         then s1\<lparr>m_cache := cache_touch (m_cache s1) prefetchBlockOffset\<rparr>
         else s1)"

text \<open>
  \<^verbatim>\<open>resultIsReady\<close> of \<^verbatim>\<open>get\<close>, which \<^verbatim>\<open>prefetchNewBlocks\<close> calls as \<^verbatim>\<open>stopPrefetching\<close>.
  The requested result is \<open>None\<close> when it was found in a cache, and the future that \<^verbatim>\<open>get\<close>
  waits for otherwise (\<^verbatim>\<open>get\<close> has one of the two when it calls \<^verbatim>\<open>prefetchNewBlocks\<close>).
\<close>

definition resultIsReady ::
  "nat \<Rightarrow> future option \<Rightarrow> 't ThreadPool \<Rightarrow> bool \<times> future option \<times> 't ThreadPool" where
  "resultIsReady submitted queuedResult pool =
     (case queuedResult of
        None \<Rightarrow> (True, None, pool)
      | Some fut \<Rightarrow>
          (case wait_for submitted fut pool of
             (ready, polledFuture, pool') \<Rightarrow> (ready, Some polledFuture, pool')))"

definition pendingPolls :: "future option \<Rightarrow> nat" where
  "pendingPolls queuedResult = (case queuedResult of None \<Rightarrow> 0 | Some fut \<Rightarrow> f_pending fut)"

text \<open>
  The \<^verbatim>\<open>do ... while\<close> loop that waits on the block finder; the timeout of
  \<^verbatim>\<open>m_blockFinder->get\<close> is left out. The loop ends because the requested future becomes
  ready.
\<close>

function waitOnBlockFinder ::
  "('v, 'f, 's) Env \<Rightarrow> nat \<Rightarrow> future option \<Rightarrow> size_t \<Rightarrow> 'f \<Rightarrow> decodeTask ThreadPool
    \<Rightarrow> (size_t option \<times> size_t option) \<times> 'f \<times> future option \<times> decodeTask ThreadPool" where
  "waitOnBlockFinder env submitted queuedResult blockIndexToPrefetch finder pool =
     (case resultIsReady submitted queuedResult pool of
        (stop1, queuedResult1, pool1) \<Rightarrow>
     (case bf_get env finder blockIndexToPrefetch of
        (prefetchBlockOffset, finder1) \<Rightarrow>
     (case resultIsReady submitted queuedResult1 pool1 of
        (stop2, queuedResult2, pool2) \<Rightarrow>
     (case bf_get env finder1 (blockIndexToPrefetch + 1) of
        (nextOffset, finder2) \<Rightarrow>
          (let wasFinalized = bf_finalized env finder1;
               nextPrefetchBlockOffset =
                 (if wasFinalized \<and> nextOffset = None then Some maxSize else nextOffset)
           in if prefetchBlockOffset = None \<and> nextPrefetchBlockOffset = None
              then (case resultIsReady submitted queuedResult2 pool2 of
                      (stop3, queuedResult3, pool3) \<Rightarrow>
                        if stop3
                        then ((prefetchBlockOffset, nextPrefetchBlockOffset), finder2,
                              queuedResult3, pool3)
                        else waitOnBlockFinder env submitted queuedResult3
                               blockIndexToPrefetch finder2 pool3)
              else ((prefetchBlockOffset, nextPrefetchBlockOffset), finder2,
                    queuedResult2, pool2))))))"
  by pat_completeness auto


termination
proof (relation "measure (\<lambda>(env, submitted, queuedResult, blockIndexToPrefetch, finder, pool).
                            pendingPolls queuedResult)", goal_cases)
  case 1
  show ?case by simp
next
  case (2 env submitted queuedResult blockIndexToPrefetch finder pool)
  then show ?case
    by (auto simp: resultIsReady_def wait_for_def pendingPolls_def
             split: option.splits if_splits prod.splits)
qed

declare waitOnBlockFinder.simps [simp del]

text \<open>\<^verbatim>\<open>m_prefetching.emplace( offset, future )\<close> on the \<^verbatim>\<open>std::map\<close>: no effect if the key exists.\<close>

fun emplace_prefetching ::
  "size_t \<Rightarrow> future \<Rightarrow> (size_t \<times> future) list \<Rightarrow> (size_t \<times> future) list" where
  "emplace_prefetching key fut [] = [(key, fut)]"
| "emplace_prefetching key fut ((k, f) # rest) =
     (if key = k then (k, f) # rest
      else if key < k then (key, fut) # (k, f) # rest
      else (k, f) # emplace_prefetching key fut rest)"

text \<open>
  The end of the body of the second loop of \<^verbatim>\<open>prefetchNewBlocks\<close>: the prefetch task is
  submitted and its future is stored in \<^verbatim>\<open>m_prefetching\<close>. (When \<^verbatim>\<open>emplace\<close> inserts
  nothing, the source constructs a \<^verbatim>\<open>std::logic_error\<close> without throwing it.)
\<close>

definition submitPrefetchTask ::
  "Schedule \<Rightarrow> ('v, 'f, 's) BlockFetcher \<Rightarrow> size_t \<Rightarrow> size_t \<Rightarrow> ('v, 'f, 's) BlockFetcher" where
  "submitPrefetchTask sched s prefetchBlockOffset nextPrefetchBlockOffset =
     (let task = \<lparr> t_blockOffset = prefetchBlockOffset,
                   t_nextBlockOffset = nextPrefetchBlockOffset \<rparr>;
          s1 = s\<lparr>m_prefetchCount := m_prefetchCount s + 1\<rparr>;
          s2 = submitTask s1 task 0;
          prefetchedFuture = \<lparr> f_task = task, f_ticket = length (submissions s1),
                               f_pending = prefetchPending sched prefetchBlockOffset \<rparr>
      in s2\<lparr>m_prefetching := emplace_prefetching prefetchBlockOffset prefetchedFuture (m_prefetching s2)\<rparr>)"

text \<open>
  The body of the second loop of \<^verbatim>\<open>prefetchNewBlocks\<close> for one block index, with how it
  leaves the iteration: \<^verbatim>\<open>break\<close>, or on to the next index (\<^verbatim>\<open>continue\<close> and the end of
  the body). \<open>queuedResult\<close> is the requested result that \<^verbatim>\<open>stopPrefetching\<close> polls.
\<close>

datatype loopControl = Break | Continue

definition prefetchBody ::
  "('v, 'f, 's) Env \<Rightarrow> Schedule \<Rightarrow> (size_t \<Rightarrow> size_t) option \<Rightarrow> size_t list \<Rightarrow> size_t
    \<Rightarrow> future option \<Rightarrow> ('v, 'f, 's) BlockFetcher
    \<Rightarrow> loopControl \<times> ('v, 'f, 's) BlockFetcher \<times> future option" where
  "prefetchBody env sched getPartitionOffsetFromOffset blockOffsetsToPrefetch
       blockIndexToPrefetch queuedResult s =
     (if threadPoolSaturated s then (Break, s, queuedResult)
      else if bf_finalized env (m_blockFinder s)
              \<and> blockIndexToPrefetch \<ge> bf_size env (m_blockFinder s)
      then (Continue, s, queuedResult)
      else (case waitOnBlockFinder env (length (submissions s)) queuedResult
                   blockIndexToPrefetch (m_blockFinder s) (m_threadPool s) of
              ((prefetchBlockOffset, nextPrefetchBlockOffset), finder', queuedResult', pool') \<Rightarrow>
                (let s1 = s\<lparr>m_blockFinder := finder', m_threadPool := pool'\<rparr>
                 in case prefetchBlockOffset of
                      None \<Rightarrow> (Continue, s1, queuedResult')
                    | Some offset \<Rightarrow>
                        (case nextPrefetchBlockOffset of
                           None \<Rightarrow> (Continue, s1, queuedResult')
                         | Some nextOffset \<Rightarrow>
                             if isInCacheOrQueue s1 offset
                                \<or> (case getPartitionOffsetFromOffset of
                                      None \<Rightarrow> False
                                    | Some partitionOffset \<Rightarrow>
                                        isInCacheOrQueue s1 (partitionOffset offset))
                             then (Continue, s1, queuedResult')
                             else if (case cache_nextNthEviction (m_prefetchCache s1)
                                             (length (m_prefetching s1) + 1) of
                                        None \<Rightarrow> False
                                      | Some offsetToBeEvicted \<Rightarrow>
                                          offsetToBeEvicted \<in> set blockOffsetsToPrefetch)
                             then (Break, s1, queuedResult')
                             else (Continue, submitPrefetchTask sched s1 offset nextOffset,
                                   queuedResult')))))"

fun prefetchLoop ::
  "('v, 'f, 's) Env \<Rightarrow> Schedule \<Rightarrow> (size_t \<Rightarrow> size_t) option \<Rightarrow> size_t list \<Rightarrow> size_t list
    \<Rightarrow> future option \<Rightarrow> ('v, 'f, 's) BlockFetcher \<Rightarrow> ('v, 'f, 's) BlockFetcher \<times> future option" where
  "prefetchLoop env sched getPartitionOffsetFromOffset blockOffsetsToPrefetch [] queuedResult s =
     (s, queuedResult)"
| "prefetchLoop env sched getPartitionOffsetFromOffset blockOffsetsToPrefetch
       (blockIndexToPrefetch # rest) queuedResult s =
     (case prefetchBody env sched getPartitionOffsetFromOffset blockOffsetsToPrefetch
             blockIndexToPrefetch queuedResult s of
        (Break, s', queuedResult') \<Rightarrow> (s', queuedResult')
      | (Continue, s', queuedResult') \<Rightarrow>
          prefetchLoop env sched getPartitionOffsetFromOffset blockOffsetsToPrefetch rest
            queuedResult' s')"

text \<open>
  \<^verbatim>\<open>prefetchNewBlocks\<close> returns the exception it throws, if any, the fetcher, and the
  requested result as the polls of \<^verbatim>\<open>stopPrefetching\<close> leave it. The tasks whose futures
  were found ready have left the queue at the polls; the tasks that the workers have popped
  in addition according to the schedule are removed right before the unprocessed tasks
  are counted.
\<close>

definition prefetchNewBlocks ::
  "('v, 'f, 's) Env \<Rightarrow> Schedule \<Rightarrow> (size_t \<Rightarrow> size_t) option \<Rightarrow> future option
    \<Rightarrow> ('v, 'f, 's) BlockFetcher \<Rightarrow> (exn + unit) \<times> ('v, 'f, 's) BlockFetcher \<times> future option" where
  "prefetchNewBlocks env sched getPartitionOffsetFromOffset queuedResult s =
     (let s1 = processReadyPrefetches env s
      in if threadPoolSaturated s1 then (Inr (), s1, queuedResult)
         else
           (let blockIndexesToPrefetch =
                  fs_prefetch env (m_fetchingStrategy s1) (c_capacity (m_prefetchCache s1))
            in case offsetsLoop env getPartitionOffsetFromOffset blockIndexesToPrefetch
                      (m_blockFinder s1) (replicate (length blockIndexesToPrefetch) 0) of
                 (blockOffsetsToPrefetch, finder') \<Rightarrow>
                   (let s2 = s1\<lparr>m_blockFinder := finder'\<rparr>;
                        s3 = fold touchInCacheIfExists (rev blockOffsetsToPrefetch) s2
                    in case prefetchLoop env sched getPartitionOffsetFromOffset
                              blockOffsetsToPrefetch blockIndexesToPrefetch queuedResult s3 of
                         (s4, queuedResult') \<Rightarrow>
                           (let s5 = s4\<lparr>m_threadPool :=
                                          workersTake (workerTakes sched) (m_threadPool s4)\<rparr>
                            in if unprocessedTasksCount (m_threadPool s5) (Some 0)
                                    > unat (m_parallelization s5)
                               then (Inl (LogicError
                                 ''The thread pool should not have more tasks than there are prefetching futures!''),
                                     s5, queuedResult')
                               else (Inr (), s5, queuedResult')))))"

text \<open>
  The loop of \<^verbatim>\<open>get\<close> that waits for the requested future:
  \<^verbatim>\<open>while ( queuedResult.wait_for( 1ms ) == std::future_status::timeout )\<close>. Its argument
  is the number of polls that still find the future not ready, which the polls of
  \<^verbatim>\<open>prefetchNewBlocks\<close> can only make smaller; the loop ends with the poll that finds the
  future ready.
\<close>

fun waitForFuture ::
  "('v, 'f, 's) Env \<Rightarrow> Schedule \<Rightarrow> (size_t \<Rightarrow> size_t) option \<Rightarrow> future \<Rightarrow> nat
    \<Rightarrow> ('v, 'f, 's) BlockFetcher \<Rightarrow> (exn + unit) \<times> ('v, 'f, 's) BlockFetcher" where
  "waitForFuture env sched getPartitionOffsetFromOffset queuedResult 0 s =
     (Inr (), s\<lparr>m_threadPool :=
                  taskTaken (length (submissions s)) (f_ticket queuedResult) (m_threadPool s)\<rparr>)"
| "waitForFuture env sched getPartitionOffsetFromOffset queuedResult (Suc pending) s =
     (case prefetchNewBlocks env sched getPartitionOffsetFromOffset
             (Some (queuedResult\<lparr>f_pending := pending\<rparr>)) s of
        (Inl e, s', queuedResult') \<Rightarrow> (Inl e, s')
      | (Inr u, s', queuedResult') \<Rightarrow>
          waitForFuture env sched getPartitionOffsetFromOffset queuedResult
            (min pending (pendingPolls queuedResult')) s')"

text \<open>
  \<^verbatim>\<open>get\<close>. The result is the exception that leaves \<^verbatim>\<open>get\<close>, or the returned pointer
  (\<open>None\<close> for the null pointer), together with the fetcher as \<^verbatim>\<open>get\<close> leaves it.
  \<open>returnResult\<close> is the part of \<^verbatim>\<open>get\<close> from the comment "Return result" on, and
  \<open>fetchAndReturn\<close> the part from \<^verbatim>\<open>m_fetchingStrategy.fetch\<close> on. Waiting for a future
  that is not valid throws \<^verbatim>\<open>std::future_error\<close>, a \<^verbatim>\<open>std::logic_error\<close>; \<^verbatim>\<open>get\<close> never
  gets there, because it submits the on-demand task when it has neither a cached result nor
  a future.
\<close>

definition returnResult ::
  "('v, 'f, 's) Env \<Rightarrow> Schedule \<Rightarrow> (size_t \<Rightarrow> size_t) option \<Rightarrow> size_t
    \<Rightarrow> 'v option \<Rightarrow> future option \<Rightarrow> ('v, 'f, 's) BlockFetcher
    \<Rightarrow> (exn + 'v option) \<times> ('v, 'f, 's) BlockFetcher" where
  "returnResult env sched getPartitionOffsetFromOffset blockOffset cachedResult queuedResult s =
     (case cachedResult of
        Some result \<Rightarrow> (Inr (Some result), s)
      | None \<Rightarrow>
          (case queuedResult of
             None \<Rightarrow> (Inl (LogicError ''std::future_error: No associated state''), s)
           | Some fut \<Rightarrow>
               (case waitForFuture env sched getPartitionOffsetFromOffset fut (f_pending fut) s of
                  (Inl e, s') \<Rightarrow> (Inl e, s')
                | (Inr u, s') \<Rightarrow>
                    (case decodeBlock env (t_blockOffset (f_task fut))
                            (t_nextBlockOffset (f_task fut)) of
                       Inl e \<Rightarrow> (Inl e, s')
                     | Inr result \<Rightarrow>
                         (Inr (Some result), insertIntoCache env s' blockOffset result)))))"

definition fetchAndReturn ::
  "('v, 'f, 's) Env \<Rightarrow> Schedule \<Rightarrow> (size_t \<Rightarrow> size_t) option \<Rightarrow> size_t \<Rightarrow> size_t
    \<Rightarrow> 'v option \<Rightarrow> future option \<Rightarrow> ('v, 'f, 's) BlockFetcher
    \<Rightarrow> (exn + 'v option) \<times> ('v, 'f, 's) BlockFetcher" where
  "fetchAndReturn env sched getPartitionOffsetFromOffset blockOffset validDataBlockIndex
       cachedResult queuedResult s =
     (let s1 = s\<lparr>m_fetchingStrategy := fs_fetch env (m_fetchingStrategy s) validDataBlockIndex\<rparr>
      in case prefetchNewBlocks env sched getPartitionOffsetFromOffset
                (case cachedResult of Some result \<Rightarrow> None | None \<Rightarrow> queuedResult) s1 of
           (Inl e, s2, queuedResult') \<Rightarrow> (Inl e, s2)
         | (Inr u, s2, queuedResult') \<Rightarrow>
             returnResult env sched getPartitionOffsetFromOffset blockOffset cachedResult
               queuedResult' s2)"

definition get ::
  "('v, 'f, 's) Env \<Rightarrow> Schedule \<Rightarrow> ('v, 'f, 's) BlockFetcher \<Rightarrow> size_t \<Rightarrow> size_t option \<Rightarrow> bool
    \<Rightarrow> (size_t \<Rightarrow> size_t) option \<Rightarrow> (exn + 'v option) \<times> ('v, 'f, 's) BlockFetcher" where
  "get env sched s blockOffset dataBlockIndex onlyCheckCaches getPartitionOffsetFromOffset =
     (case getFromCaches env s blockOffset of
        ((cachedResult, queuedResult), s1) \<Rightarrow>
          (case (case dataBlockIndex of
                   Some i \<Rightarrow> Inr i
                 | None \<Rightarrow> bf_find env (m_blockFinder s1) blockOffset) of
             Inl e \<Rightarrow> (Inl e, s1)
           | Inr validDataBlockIndex \<Rightarrow>
               (case bf_get env (m_blockFinder s1) (validDataBlockIndex + 1) of
                  (nextBlockOffset, finder') \<Rightarrow>
                    (let s2 = s1\<lparr>m_blockFinder := finder'\<rparr>
                     in if cachedResult = None \<and> queuedResult = None
                        then (if onlyCheckCaches then (Inr None, s2)
                              else (case submitOnDemandTask sched s2 blockOffset nextBlockOffset of
                                      (fut, s3) \<Rightarrow>
                                        fetchAndReturn env sched getPartitionOffsetFromOffset
                                          blockOffset validDataBlockIndex cachedResult (Some fut) s3))
                        else fetchAndReturn env sched getPartitionOffsetFromOffset blockOffset
                               validDataBlockIndex cachedResult queuedResult s2))))"
text \<open>\<^verbatim>\<open>submitTaskWithHighPriority\<close>, the only submission of the class with a priority other than 0.\<close>

definition submitTaskWithHighPriority ::
  "('v, 'f, 's) BlockFetcher \<Rightarrow> decodeTask \<Rightarrow> ('v, 'f, 's) BlockFetcher" where
  "submitTaskWithHighPriority s task = submitTask s task (- 1)"

text \<open>
  The states of a fetcher: those that the constructor, \<^verbatim>\<open>get\<close> and \<^verbatim>\<open>clearCache\<close> reach,
  with the worker threads taking tasks from the pool between the calls.
\<close>

inductive fetcherReachable :: "('v, 'f, 's) Env \<Rightarrow> ('v, 'f, 's) BlockFetcher \<Rightarrow> bool"
  for env :: "('v, 'f, 's) Env" where
  fetcher_new: "BlockFetcher_new env blockFinder parallelization strategy = Inr s
      \<Longrightarrow> fetcherReachable env s"
| fetcher_get: "fetcherReachable env s
      \<Longrightarrow> get env sched s blockOffset dataBlockIndex onlyCheckCaches getPartitionOffsetFromOffset
            = (r, s')
      \<Longrightarrow> fetcherReachable env s'"
| fetcher_clearCache: "fetcherReachable env s \<Longrightarrow> fetcherReachable env (clearCache s)"
| fetcher_workers: "fetcherReachable env s
      \<Longrightarrow> fetcherReachable env (s\<lparr>m_threadPool := workersTake n (m_threadPool s)\<rparr>)"

text \<open>
  What the reachable states have in common: the capacity of the on-demand cache is at
  least 16, \<^verbatim>\<open>m_prefetching\<close> is in the order of its keys, no offset with a future in
  \<^verbatim>\<open>m_prefetching\<close> is in the prefetch cache, and no task was submitted for an offset that
  was in a cache or in \<^verbatim>\<open>m_prefetching\<close>.
\<close>

definition submissionOk :: "submission \<Rightarrow> bool" where
  "submissionOk sub \<longleftrightarrow> \<not> sub_inPrefetching sub \<and> \<not> sub_inCache sub \<and> \<not> sub_inPrefetchCache sub"

definition fetcherInv :: "('v, 'f, 's) BlockFetcher \<Rightarrow> bool" where
  "fetcherInv s \<longleftrightarrow>
     16 \<le> c_capacity (m_cache s)
     \<and> sorted_wrt (<) (map fst (m_prefetching s))
     \<and> (\<forall>k. map_of (m_prefetching s) k \<noteq> None \<longrightarrow> \<not> cache_test (m_prefetchCache s) k)
     \<and> list_all submissionOk (submissions s)"



text \<open>
  The tickets of the futures that the fetcher holds: those in \<^verbatim>\<open>m_prefetching\<close> and the one
  that \<^verbatim>\<open>get\<close> waits for. In the states reached with valid block offsets the tasks in the
  queue are the last submitted ones, and each of them has its future among these, as the
  comment at the end of \<^verbatim>\<open>prefetchNewBlocks\<close> says; the pool is running with as many threads
  as the parallelization, and fewer futures than threads are in \<^verbatim>\<open>m_prefetching\<close>.
\<close>

definition heldTickets :: "future option \<Rightarrow> ('v, 'f, 's) BlockFetcher \<Rightarrow> nat set" where
  "heldTickets queuedResult s =
     f_ticket ` snd ` set (m_prefetching s)
     \<union> (case queuedResult of None \<Rightarrow> {} | Some fut \<Rightarrow> {f_ticket fut})"

definition queuedWithin :: "nat \<Rightarrow> nat \<Rightarrow> nat set \<Rightarrow> bool" where
  "queuedWithin submitted queued held \<longleftrightarrow>
     queued \<le> submitted
     \<and> (\<forall>ticket < submitted. submitted \<le> ticket + queued \<longrightarrow> ticket \<in> held)"

definition queueInv :: "future option \<Rightarrow> ('v, 'f, 's) BlockFetcher \<Rightarrow> bool" where
  "queueInv queuedResult s \<longleftrightarrow>
     m_threadPoolRunning (m_threadPool s)
     \<and> size_pool (m_threadPool s) = unat (m_parallelization s)
     \<and> length (m_prefetching s) < size_pool (m_threadPool s)
     \<and> queuedWithin (length (submissions s)) (unprocessedTasksCount (m_threadPool s) None)
           (heldTickets queuedResult s)"
text \<open>
  A small instance for concrete runs: the block with index \<open>i\<close> is at the offset \<open>8 * i\<close>,
  the fetching strategy is sequential and always predicts the block index 100, and decoding
  the block at the offset 800 fails. The fetcher is constructed with a parallelization of 2.
\<close>

definition exampleEnv :: "(size_t, unit, unit) Env" where
  "exampleEnv =
     \<lparr> decodeBlock = (\<lambda>blockOffset nextBlockOffset.
          if blockOffset = 800 then Inl (DecodeFailure ''invalid block'') else Inr blockOffset),
       bf_find = (\<lambda>finder blockOffset. Inr (blockOffset div 8)),
       bf_get = (\<lambda>finder blockIndex. (Some (8 * blockIndex), finder)),
       bf_finalized = (\<lambda>finder. False),
       bf_size = (\<lambda>finder. 0),
       fs_fetch = (\<lambda>strategy blockIndex. strategy),
       fs_prefetch = (\<lambda>strategy maxAmountToPrefetch. [100]),
       fs_isSequential = (\<lambda>strategy. True),
       availableCores = 4 \<rparr>"

definition exampleSchedule :: Schedule where
  "exampleSchedule = \<lparr> onDemandPending = 0, prefetchPending = (\<lambda>blockOffset. 0), workerTakes = 2 \<rparr>"

definition exampleFetcher :: "(size_t, unit, unit) BlockFetcher" where
  "exampleFetcher =
     \<lparr> m_parallelization = 2,
       m_blockFinder = (),
       m_cache = \<lparr> c_capacity = 16, c_entries = [] \<rparr>,
       m_prefetchCache = \<lparr> c_capacity = 4, c_entries = [] \<rparr>,
       m_fetchingStrategy = (),
       m_prefetching = [],
       m_threadPool = \<lparr> m_threadPoolRunning = True, m_tasks = [], m_threads = 2 \<rparr>,
       m_prefetchCount = 0,
       submissions = [] \<rparr>"

text \<open>The fetcher after \<^verbatim>\<open>get\<close> of the block with index 1 at the offset 8.\<close>

definition exampleFetcherAfterGet :: "(size_t, unit, unit) BlockFetcher" where
  "exampleFetcherAfterGet =
     \<lparr> m_parallelization = 2,
       m_blockFinder = (),
       m_cache = \<lparr> c_capacity = 16, c_entries = [(8, 8)] \<rparr>,
       m_prefetchCache = \<lparr> c_capacity = 4, c_entries = [] \<rparr>,
       m_fetchingStrategy = (),
       m_prefetching =
         [(800, \<lparr> f_task = \<lparr> t_blockOffset = 800, t_nextBlockOffset = 808 \<rparr>, f_ticket = 1,
                  f_pending = 0 \<rparr>)],
       m_threadPool = \<lparr> m_threadPoolRunning = True, m_tasks = [(0, [])], m_threads = 2 \<rparr>,
       m_prefetchCount = 1,
       submissions =
         [\<lparr> sub_offset = 8, sub_priority = 0, sub_inPrefetching = False, sub_inCache = False,
            sub_inPrefetchCache = False \<rparr>,
          \<lparr> sub_offset = 800, sub_priority = 0, sub_inPrefetching = False, sub_inCache = False,
            sub_inPrefetchCache = False \<rparr>] \<rparr>"

section \<open>Properties of GzipBlockFinder\<close>

subsection \<open>The spacing check of the constructor\<close>

text \<open>
  The constructor throws for the spacing exactly when the spacing in bits, computed modulo
  \<open>2 ^ 64\<close>, is below \<^verbatim>\<open>32_Ki\<close>.
\<close>

lemma GzipBlockFinder_new_spacing:
  "GzipBlockFinder_new fileSize isBgzf bgzfOffsets header spacing batch
     = Inl (InvalidArgument ''A spacing smaller than the window size makes no sense!'')
   \<longleftrightarrow> spacing * 8 < 32768"
  by (auto simp: GzipBlockFinder_new_def Let_def CHAR_BIT_def Ki32_def split: sum.splits)

text \<open>
  Claim C1 says that the constructor throws \<^verbatim>\<open>std::invalid_argument\<close> for every spacing
  below 32 KiB. The code compares the spacing in bits with \<^verbatim>\<open>32_Ki\<close>: a spacing of 4096
  bytes, which is below the 32768 bytes of the window, gives 32768 bits and is accepted. The
  theorem evaluates the constructor there, for a file of 128 KiB whose header ends at bit 80.
\<close>

theorem spacing_4096_accepted:
  "(4096 :: size_t) < Ki32
   \<and> GzipBlockFinder_new 131072 False [] (Inr 80) 4096 16
       = Inr \<lparr> m_fileSizeInBits = 1048576, m_finalized = False, m_spacingInBits = 32768,
               m_blockOffsets = [80], m_isBgzfFile = False, m_bgzfBlockFinder = [],
               m_batchFetchCount = 16 \<rparr>"
  by (simp add: GzipBlockFinder_new_def CHAR_BIT_def Ki32_def)

subsection \<open>The invariant\<close>

lemma card_below: "card {w :: size_t. w < F} \<le> unat F"
proof -
  have "{w :: size_t. w < F} \<subseteq> of_nat ` {0 ..< unat F}"
  proof
    fix w assume "w \<in> {w :: size_t. w < F}"
    then have "unat w < unat F" by (simp add: word_less_nat_alt)
    then have "unat w \<in> {0 ..< unat F}" by simp
    moreover have "w = of_nat (unat w)" by simp
    ultimately show "w \<in> of_nat ` {0 ..< unat F}" by (rule rev_image_eqI)
  qed
  then have "card {w :: size_t. w < F} \<le> card ((of_nat :: nat \<Rightarrow> size_t) ` {0 ..< unat F})"
    by (intro card_mono) auto
  also have "\<dots> \<le> card {0 ..< unat F}" by (rule card_image_le) simp
  finally show ?thesis by simp
qed

lemma length_bound:
  assumes d: "distinct xs" and b: "\<forall>x \<in> set xs. x < F \<or> x = t" and F: "F \<noteq> (- 1 :: size_t)"
  shows "length xs < 2 ^ 64"
proof -
  have "set xs \<subseteq> insert t {w. w < F}" using b by auto
  then have "card (set xs) \<le> card (insert t {w. w < F})" by (intro card_mono) auto
  also have "\<dots> \<le> Suc (card {w. w < F})" by (simp add: card_insert_if)
  also have "\<dots> \<le> Suc (unat F)" using card_below by simp
  finally have "length xs \<le> Suc (unat F)" using d by (simp add: distinct_card)
  moreover have "unat F < 2 ^ 64 - 1"
  proof -
    have "unat F \<noteq> unat (- 1 :: size_t)" using F by (simp add: word_unat_eq_iff)
    moreover have "unat (- 1 :: size_t) = 2 ^ 64 - 1" by (simp add: unsigned_minus_1_eq_mask mask_eq_exp_minus_1)
    moreover have "unat F < 2 ^ 64" using unsigned_less [of F] by simp
    ultimately show ?thesis by simp
  qed
  ultimately show ?thesis by simp
qed

lemma sorted_wrt_insert_lb:
  assumes "sorted_wrt (<) (xs :: size_t list)"
    and "lower_bound xs v = length xs \<or> xs ! lower_bound xs v \<noteq> v"
  shows "sorted_wrt (<) (take (lower_bound xs v) xs @ v # drop (lower_bound xs v) xs)"
  using assms
proof (induction xs)
  case Nil
  then show ?case by (simp add: lower_bound_def)
next
  case (Cons a xs)
  show ?case
  proof (cases "a < v")
    case True
    then have lb: "lower_bound (a # xs) v = Suc (lower_bound xs v)" by (simp add: lower_bound_def)
    have "lower_bound xs v = length xs \<or> xs ! lower_bound xs v \<noteq> v"
      using Cons.prems(2) lb by simp
    then have ih: "sorted_wrt (<) (take (lower_bound xs v) xs @ v # drop (lower_bound xs v) xs)"
      using Cons.IH Cons.prems(1) by simp
    have "\<forall>y \<in> set (take (lower_bound xs v) xs @ v # drop (lower_bound xs v) xs). a < y"
      using Cons.prems(1) True by (auto dest: in_set_takeD in_set_dropD)
    then show ?thesis using ih lb by simp
  next
    case False
    then have lb: "lower_bound (a # xs) v = 0" by (simp add: lower_bound_def)
    then have "a \<noteq> v" using Cons.prems(2) by simp
    then have "v < a" using False by simp
    then show ?thesis using Cons.prems(1) lb by auto
  qed
qed

lemma insertUnsafe_inv:
  assumes "finderInv s" and "insertUnsafe s off = Inr s'"
  shows "finderInv s'"
proof (cases "s' = s")
  case True
  then show ?thesis using assms by simp
next
  case False
  let ?k = "lower_bound (m_blockOffsets s) off"
  from False assms(2) have lt: "off < m_fileSizeInBits s"
    and nf: "\<not> m_finalized s"
    and cond: "?k = length (m_blockOffsets s) \<or> m_blockOffsets s ! ?k \<noteq> off"
    and s': "s' = s\<lparr>m_blockOffsets := take ?k (m_blockOffsets s) @ off # drop ?k (m_blockOffsets s)\<rparr>"
    by (auto simp: insertUnsafe_def Let_def split: if_splits)
  have srt: "sorted_wrt (<) (m_blockOffsets s')"
    using sorted_wrt_insert_lb [OF _ cond] assms(1) s' by (simp add: finderInv_def)
  from assms(1) nf obtain t where F: "m_fileSizeInBits s \<noteq> - 1"
    and t: "\<forall>x \<in> set (m_blockOffsets s). x < m_fileSizeInBits s \<or> x = t"
    by (auto simp: finderInv_def)
  have t': "\<forall>x \<in> set (m_blockOffsets s'). x < m_fileSizeInBits s' \<or> x = t"
    using t lt s' by (auto dest: in_set_takeD in_set_dropD)
  have "distinct (m_blockOffsets s')"
    using srt by (simp add: strict_sorted_iff)
  then have "length (m_blockOffsets s') < 2 ^ 64"
    using length_bound [OF _ t'] F s' by simp
  then show ?thesis using srt t' F assms(1) s' by (auto simp: finderInv_def)
qed

lemma finderInv_bgzf [simp]: "finderInv (s\<lparr>m_bgzfBlockFinder := x\<rparr>) = finderInv s"
  by (simp add: finderInv_def)

lemma gatherLoop_inv:
  "finderInv s \<Longrightarrow> gatherLoop n offs s = Inr s' \<Longrightarrow> finderInv s'"
proof (induction n offs s rule: gatherLoop.induct)
  case (1 blockNumber s)
  then show ?case by auto
next
  case (2 blockNumber nextOffset rest s)
  show ?case
  proof (cases "blockNumber + m_batchFetchCount s \<ge> size_finder s")
    case False
    then show ?thesis using "2.prems" by auto
  next
    case c1: True
    show ?thesis
    proof (cases "nextOffset < last (m_blockOffsets s) + m_spacingInBits s")
      case True
      then show ?thesis using "2.IH"(1) "2.prems" c1 by simp
    next
      case c2: False
      show ?thesis
      proof (cases "nextOffset \<ge> m_fileSizeInBits s")
        case True
        then show ?thesis using "2.prems" c1 c2 by auto
      next
        case c3: False
        from "2.prems"(2) c1 c2 c3 obtain s1 where
          i1: "insertUnsafe s nextOffset = Inr s1" and g: "gatherLoop blockNumber rest s1 = Inr s'"
          by (auto split: sum.splits)
        have "finderInv s1" using insertUnsafe_inv [OF "2.prems"(1) i1] .
        then show ?thesis using "2.IH"(2) c1 c2 c3 i1 g by simp
      qed
    qed
  qed
qed

lemma new_inv:
  assumes "GzipBlockFinder_new fileSize isBgzf bgzfOffsets header spacing batch = Inr s"
  shows "finderInv s"
proof -
  have odd: "fileSize * 8 \<noteq> (- 1 :: size_t)"
  proof
    assume "fileSize * 8 = (- 1 :: size_t)"
    then have "even (- 1 :: size_t)" by (metis dvd_triv_right even_mult_iff even_numeral)
    then show False by simp
  qed
  from assms show ?thesis
    using odd
    by (auto simp: GzipBlockFinder_new_def Let_def CHAR_BIT_def finderInv_def
             split: if_splits sum.splits)
qed

lemma reachable_inv: "reachable s \<Longrightarrow> finderInv s"
proof (induction rule: reachable.induct)
  case (reach_new fileSize isBgzf bgzfOffsets header spacing batch s)
  then show ?case by (rule new_inv)
next
  case (reach_insert s blockOffset s')
  then show ?case using insertUnsafe_inv by (simp add: insert_finder_def)
next
  case (reach_finalize s)
  then show ?case by (simp add: finderInv_def finalize_def)
next
  case (reach_get s blockIndex r s')
  then show ?case
    using gatherLoop_inv
    by (auto simp: get_finder_def gatherMoreBgzfBlocks_def split: if_splits sum.splits)
next
  case (reach_set s blockOffsets)
  then show ?case by (simp add: finderInv_def setBlockOffsets_def finalize_def)
qed

lemma lower_bound_nth:
  "sorted_wrt (<) (xs :: size_t list) \<Longrightarrow> k < length xs \<Longrightarrow> lower_bound xs (xs ! k) = k"
proof (induction xs arbitrary: k)
  case Nil
  then show ?case by simp
next
  case (Cons a xs)
  show ?case
  proof (cases k)
    case 0
    then show ?thesis by (simp add: lower_bound_def)
  next
    case (Suc j)
    then have "a < xs ! j" using Cons.prems by simp
    moreover have "lower_bound xs (xs ! j) = j" using Cons Suc by simp
    ultimately show ?thesis using Suc by (simp add: lower_bound_def)
  qed
qed

lemma lower_bound_beyond:
  assumes "sorted_wrt (<) (xs :: size_t list)" and "xs \<noteq> []" and "last xs < v"
  shows "lower_bound xs v = length xs"
proof -
  have "\<forall>x \<in> set xs. x < v"
  proof
    fix x assume "x \<in> set xs"
    then obtain k where k: "k < length xs" "x = xs ! k" by (auto simp: in_set_conv_nth)
    show "x < v"
    proof (cases "k = length xs - 1")
      case True
      then show ?thesis using k assms by (simp add: last_conv_nth)
    next
      case False
      then have "xs ! k < xs ! (length xs - 1)"
        using assms(1) k by (simp add: sorted_wrt_nth_less)
      then show ?thesis using k assms by (simp add: last_conv_nth)
    qed
  qed
  then have "takeWhile (\<lambda>x. x < v) xs = xs" by (simp add: takeWhile_eq_all_conv)
  then show ?thesis unfolding lower_bound_def by (rule arg_cong [where f = length])
qed

subsection \<open>get and find\<close>

lemma finder_128KiB_new:
  "GzipBlockFinder_new 131072 False [] (Inr 80) 32768 16 = Inr finder_128KiB"
  by (simp add: GzipBlockFinder_new_def CHAR_BIT_def Ki32_def finder_128KiB_def)

text \<open>
  Claim C10, amended: for every state of a finder of a file that is not a BGZF file, reached
  from the constructor by insert, finalize, get and setBlockOffsets (with a non-empty,
  strictly increasing vector), and for every block index \<open>i\<close> for which \<^verbatim>\<open>get\<close> returns an
  offset below the file size in bits, \<^verbatim>\<open>find\<close> of this offset returns \<open>i\<close> and throws
  nothing, provided that the guess of an index beyond the confirmed offsets is computed
  without wrap-around: \<open>(firstPartitionIndex + (i - size)) * spacing < 2 ^ 64\<close>.
\<close>

theorem get_find_roundtrip:
  assumes r: "reachable s" and nb: "\<not> m_isBgzfFile s"
    and g: "fst (get_finder s i) = Inr (Some off)"
    and lt: "off < m_fileSizeInBits s"
    and nowrap: "size_finder s \<le> i \<Longrightarrow>
        (unat (firstPartitionIndex s) + unat (i - size_finder s)) * unat (m_spacingInBits s) < 2 ^ 64"
  shows "find_finder s off = Inr i"
proof -
  let ?xs = "m_blockOffsets s" and ?S = "m_spacingInBits s"
  have inv: "finderInv s" using r by (rule reachable_inv)
  then have ne: "?xs \<noteq> []" and srt: "sorted_wrt (<) ?xs" and S: "Ki32 \<le> ?S"
    and len: "length ?xs < 2 ^ 64"
    by (simp_all add: finderInv_def)
  have ulen: "unat (size_finder s) = length ?xs"
    using len by (simp add: size_finder_def unat_of_nat)
  from g nb have gg: "get_guess s i = Inr (Some off)" by (simp add: get_finder_def)
  show ?thesis
  proof (cases "i < size_finder s")
    case True
    then have k: "unat i < length ?xs" using ulen by (simp add: word_less_nat_alt)
    from gg True have off: "off = ?xs ! unat i" by (simp add: get_guess_def)
    have "lower_bound ?xs off = unat i" using lower_bound_nth [OF srt k] off by simp
    then show ?thesis using k off by (simp add: find_finder_def)
  next
    case False
    then have ge: "size_finder s \<le> i" by simp
    let ?f = "firstPartitionIndex s"
    let ?p = "?f + (i - size_finder s)"
    have nw: "(unat ?f + unat (i - size_finder s)) * unat ?S < 2 ^ 64" using nowrap ge by simp
    have Spos: "0 < unat ?S"
    proof -
      have "unat Ki32 \<le> unat ?S" using S by (simp add: word_le_nat_alt)
      then show ?thesis by (simp add: Ki32_def)
    qed
    have sum_lt: "unat ?f + unat (i - size_finder s) < 2 ^ 64"
    proof -
      have "unat ?f + unat (i - size_finder s) \<le> (unat ?f + unat (i - size_finder s)) * unat ?S"
        using Spos by (cases "unat ?S") auto
      then show ?thesis using nw by (rule le_less_trans)
    qed
    have up: "unat ?p = unat ?f + unat (i - size_finder s)"
      using sum_lt by (simp add: unat_add_lem [THEN iffD1])
    have uo: "unat (?p * ?S) = unat ?p * unat ?S"
      using nw up by (simp add: unat_mult_lem [THEN iffD1])
    from gg False ne lt have off: "off = ?p * ?S"
      by (auto simp: get_guess_def Let_def split: if_splits)
    have modz: "off mod ?S = 0"
    proof -
      have "unat (off mod ?S) = 0" using off uo by (simp add: unat_mod)
      then show ?thesis by (simp add: unat_eq_0)
    qed
    have divp: "off div ?S = ?p"
    proof -
      have "unat (off div ?S) = unat ?p" using off uo Spos by (simp add: unat_div)
      then show ?thesis by (simp add: word_unat_eq_iff)
    qed
    have f_ge: "unat (last ?xs) div unat ?S + 1 \<le> unat ?f"
    proof -
      have two: "2 \<le> unat ?S"
      proof -
        have "unat Ki32 \<le> unat ?S" using S by (simp add: word_le_nat_alt)
        then show ?thesis by (simp add: Ki32_def)
      qed
      have "unat (last ?xs) div unat ?S \<le> unat (last ?xs) div 2"
        using two by (intro div_le_mono2) simp_all
      moreover have "unat (last ?xs) < 2 ^ 64" using unsigned_less [of "last ?xs"] by simp
      ultimately have "unat (last ?xs div ?S) + unat (1 :: size_t) < 2 ^ 64"
        by (simp add: unat_div)
      then have "unat (last ?xs div ?S + 1) = unat (last ?xs div ?S) + unat (1 :: size_t)"
        by (intro unat_add_lem [THEN iffD1]) simp
      then show ?thesis by (simp add: firstPartitionIndex_def unat_div)
    qed
    have last_lt: "last ?xs < off"
    proof -
      have "unat (last ?xs) < (unat (last ?xs) div unat ?S + 1) * unat ?S"
        using Spos by (metis Suc_eq_plus1 dividend_less_div_times mult.commute add.commute mult_Suc)
      also have "\<dots> \<le> unat ?p * unat ?S"
      proof (rule mult_le_mono1)
        show "unat (last ?xs) div unat ?S + 1 \<le> unat ?p" using f_ge up by linarith
      qed
      finally show ?thesis using off uo by (simp add: word_less_nat_alt)
    qed
    have lb: "lower_bound ?xs off = length ?xs"
      using lower_bound_beyond [OF srt ne last_lt] .
    have idx: "size_finder s + (?p - ?f) = i" by simp
    show ?thesis
      using lb last_lt lt modz divp off
      by (simp add: find_finder_def Let_def)
  qed
qed

text \<open>
  The claim as it was stated, for every block index, fails where the product wraps around:
  with a spacing of \<open>2 ^ 18\<close> bits, \<^verbatim>\<open>get\<close> of the index \<open>2 ^ 46 + 1\<close> is the offset
  \<open>2 ^ 18\<close>, and \<^verbatim>\<open>find\<close> of this offset is the index 1.
\<close>

theorem get_find_roundtrip_counterexample:
  "GzipBlockFinder_new 131072 False [] (Inr 80) 32768 16 = Inr finder_128KiB
   \<and> \<not> m_isBgzfFile finder_128KiB
   \<and> fst (get_finder finder_128KiB 70368744177665) = Inr (Some 262144)
   \<and> 262144 < m_fileSizeInBits finder_128KiB
   \<and> find_finder finder_128KiB 262144 = Inr 1"
  by (simp add: GzipBlockFinder_new_def CHAR_BIT_def Ki32_def finder_128KiB_def
      get_finder_def get_guess_def size_finder_def firstPartitionIndex_def
      find_finder_def lower_bound_def)

theorem get_find_roundtrip_witness:
  "reachable finder_128KiB \<and> \<not> m_isBgzfFile finder_128KiB
   \<and> fst (get_finder finder_128KiB 2) = Inr (Some 524288)
   \<and> 524288 < m_fileSizeInBits finder_128KiB
   \<and> find_finder finder_128KiB 524288 = Inr 2"
proof -
  have r: "reachable finder_128KiB" using finder_128KiB_new by (rule reach_new)
  have nb: "\<not> m_isBgzfFile finder_128KiB" by (simp add: finder_128KiB_def)
  have g: "fst (get_finder finder_128KiB 2) = Inr (Some 524288)"
    by (simp add: finder_128KiB_def get_finder_def get_guess_def size_finder_def
        firstPartitionIndex_def)
  have lt: "524288 < m_fileSizeInBits finder_128KiB" by (simp add: finder_128KiB_def)
  have nw: "(unat (firstPartitionIndex finder_128KiB) + unat (2 - size_finder finder_128KiB))
      * unat (m_spacingInBits finder_128KiB) < 2 ^ 64"
    by (simp add: finder_128KiB_def size_finder_def firstPartitionIndex_def)
  show ?thesis using r nb g lt get_find_roundtrip [OF r nb g lt nw] by simp
qed

section \<open>Properties of the CRC-32 functions\<close>

lemma CRC32_TABLE_nth:
  "k < 256 \<Longrightarrow> CRC32_TABLE ! k = ucast ((crcTableStep ^^ 8) (of_nat k))"
  by (simp add: CRC32_TABLE_def createCRC32LookupTable_def)

lemma funpow_8: "(f ^^ 8) x = f (f (f (f (f (f (f (f x)))))))"
  by (simp add: eval_nat_numeral)

text \<open>
  \<^verbatim>\<open>crc32_sse4\<close> leaves out the 32-bit words that remain after the last block of 16 bytes:
  data of 4, 8 or 12 bytes does not change the CRC at all.
\<close>

lemma crc32_sse4_short:
  assumes "length vec_data div 4 < 4" and "length vec_data mod 4 = 0"
  shows "crc32_sse4 crc vec_data = crc"
proof -
  have "sse4_words (length vec_data div 4) vec_data (crc XOR 0xFFFFFFFF)
          = (crc XOR 0xFFFFFFFF, vec_data)"
    using assms(1) by simp
  then have "crc32_sse4 crc vec_data = (crc XOR 0xFFFFFFFF) XOR 0xFFFFFFFF"
    using assms(2) by (simp add: crc32_sse4_def)
  then show ?thesis by (simp add: xor.assoc)
qed

text \<open>
  Claim C6 says that \<^verbatim>\<open>crc32_sse4\<close> computes the table-based CRC-32 of RFC 1952 for every
  initial value and every byte sequence. For the four bytes 1, 2, 3, 4 and the initial value
  0 the table-based CRC-32 is \<open>0xB63CFBCD\<close>, and \<^verbatim>\<open>crc32_sse4\<close> returns 0: its first loop
  needs 16 bytes, and its second loop reads \<open>length & 3 = 0\<close> bytes.
\<close>

theorem crc32_sse4_differs_from_table:
  "crc32_sse4 0 [1, 2, 3, 4] = 0 \<and> crc32_table_reference 0 [1, 2, 3, 4] = 0xB63CFBCD"
proof
  show "crc32_sse4 0 [1, 2, 3, 4] = 0"
    by (simp add: crc32_sse4_def)
  show "crc32_table_reference 0 [1, 2, 3, 4] = 0xB63CFBCD"
    by (simp add: crc32_table_reference_def updateCRC32_def CRC32_TABLE_nth crcTableStep_def
        funpow_8 mask_numeral)
qed

text \<open>
  The bytes that \<^verbatim>\<open>crc32_sse4\<close> does read go through the CRC-32C instruction: for the single
  byte \<open>0x61\<close> it returns \<open>0xC1D04330\<close>, the table-based CRC-32 is \<open>0xE8B7BE43\<close>.
\<close>

lemma crc32_sse4_one_byte:
  "crc32_sse4 0 [0x61] = 0xC1D04330 \<and> crc32_table_reference 0 [0x61] = 0xE8B7BE43"
proof
  show "crc32_sse4 0 [0x61] = 0xC1D04330"
    by (simp add: crc32_sse4_def mm_crc32_u8_def crc32cStep_def funpow_8 mask_numeral)
  show "crc32_table_reference 0 [0x61] = 0xE8B7BE43"
    by (simp add: crc32_table_reference_def updateCRC32_def CRC32_TABLE_nth crcTableStep_def
        funpow_8 mask_numeral)
qed

section \<open>Properties of checkPrecode\<close>

lemma upt_4: "[0 ..< 4] = [0, 1, 2, 3]"
  by (simp add: upt_rec)

lemma upt_5: "[0 ..< 5] = [0, 1, 2, 3, 4]"
  by (simp add: upt_rec)

lemma upt_8: "[0 ..< 8] = [0, 1, 2, 3, 4, 5, 6, 7]"
  by (simp add: upt_rec)

lemma upt_1_8: "[Suc 0 ..< 8] = [1, 2, 3, 4, 5, 6, 7]"
  by (simp add: upt_rec)

lemma upt_19: "[0 ..< 19] = [0, 1, 2, 3, 4, 5, 6, 7, 8, 9, 10, 11, 12, 13, 14, 15, 16, 17, 18]"
  by (simp add: upt_rec)

text \<open>The constants, with the values of the \<^verbatim>\<open>static_assert\<close>s of the source.\<close>

lemma MEMBER_OFFSETS_eq: "MEMBER_OFFSETS = [0, 5, 6, 8, 11, 15, 20, 25]"
  by (simp add: MEMBER_OFFSETS_def MEMBER_BIT_WIDTHS_def upt_8 take_Cons')

lemma OVERFLOW_MEMBER_OFFSET_eq: "OVERFLOW_MEMBER_OFFSET = 29"
  by (simp add: OVERFLOW_MEMBER_OFFSET_def MEMBER_OFFSETS_eq MEMBER_BIT_WIDTHS_def)

lemma LOWEST_MEMBER_BITS_MASK_eq: "LOWEST_MEMBER_BITS_MASK = 0b00010000100001000100101100001"
  by (simp add: LOWEST_MEMBER_BITS_MASK_def MEMBER_OFFSETS_eq)

lemma OVERFLOW_BITS_MASK_eq: "OVERFLOW_BITS_MASK = 0b11100010000100001000100101100001"
  by (simp add: OVERFLOW_BITS_MASK_def LOWEST_MEMBER_BITS_MASK_eq OVERFLOW_MEMBER_OFFSET_eq
      mask_numeral)

lemma HISTOGRAM_TO_LOOK_UP_BITS_eq: "HISTOGRAM_TO_LOOK_UP_BITS = 24"
  by (simp add: HISTOGRAM_TO_LOOK_UP_BITS_def MEMBER_OFFSETS_eq MEMBER_BIT_WIDTHS_def)

lemma CHUNK_COUNT_eq: "ceilDiv MAX_PRECODE_COUNT 4 = 5"
  by (simp add: ceilDiv_def MAX_PRECODE_COUNT_def)

lemma PRECODE_X4_TO_HISTOGRAM_LUT_nth:
  "i < 4096 \<Longrightarrow> PRECODE_X4_TO_HISTOGRAM_LUT ! i = calculateHistogram 3 4 (of_nat i)"
  by (simp add: PRECODE_X4_TO_HISTOGRAM_LUT_def createHistogramLUT_def PRECODE_BITS_def)

lemmas precode_eval =
  MEMBER_OFFSETS_eq OVERFLOW_MEMBER_OFFSET_eq OVERFLOW_BITS_MASK_eq HISTOGRAM_TO_LOOK_UP_BITS_eq
  MEMBER_BIT_WIDTHS_def PRECODE_X4_TO_HISTOGRAM_LUT_nth upt_4 upt_5 calculateHistogram_def
  calculateHistogramStep_def incrementCount_def getCount_def nLowestBitsSet_def mask_numeral
  PRECODE_BITS_def MAX_PRECODE_COUNT_def ceilDiv_def precodeSums_def precodeChunkStep_def Let_def

text \<open>
  The sums of the loop for three inputs: two codes of length 1; three codes of length 1;
  sixteen codes of length 7 followed by the lengths 1, 2 and 3.
\<close>

lemma precodeSums_two_ones: "precodeSums 0 9 = (536870978, 0, 536870978)"
  by (simp add: precode_eval)

lemma precodeSums_three_ones: "precodeSums 0 73 = (536871011, 0, 536871011)"
  by (simp add: precode_eval)

lemma precodeSums_sixteen_sevens:
  "precodeSums 15 59109745109237759 = (536871283, 805306392, 134218087)"
  by (simp add: precode_eval)

text \<open>
  Claim C3, amended: for every input of \<^verbatim>\<open>checkPrecode\<close> for which the overflow detection
  sets an overflow bit, in the sum of the partial histograms or in a partial histogram
  loaded from the lookup table, \<^verbatim>\<open>checkPrecode\<close> returns \<^verbatim>\<open>INVALID_CODE_LENGTHS\<close> unless the
  entry of \<^verbatim>\<open>POWER_OF_TWO_SPECIAL_CASES\<close> for the non-zero count equals the histogram to look
  up; in that case it returns \<^verbatim>\<open>NONE\<close>, because the special cases are tested before the
  overflow bits.
\<close>

theorem checkPrecode_overflow:
  assumes "precodeSums next4Bits next57Bits
             = (bitLengthFrequencies, overflowsInSum, overflowsInLUT)"
    and "overflowDetected overflowsInSum overflowsInLUT"
  shows "checkPrecode VALID_HISTOGRAMS next4Bits next57Bits
           = (if POWER_OF_TWO_SPECIAL_CASES ! unat (nonZeroCount bitLengthFrequencies)
                   = histogramToLookUp bitLengthFrequencies
              then NONE else INVALID_CODE_LENGTHS)"
  using assms by (simp add: checkPrecode_def)

text \<open>
  The claim as it was stated, that every such input is rejected, fails for two codes of
  length 1 (\<open>next4Bits = 0\<close>, \<open>next57Bits = 9\<close>): the partial histogram from the lookup
  table has the overflow bit 29 set, and \<^verbatim>\<open>checkPrecode\<close> returns \<^verbatim>\<open>NONE\<close>.
\<close>

theorem checkPrecode_overflow_counterexample:
  "overflowDetected (fst (snd (precodeSums 0 9))) (snd (snd (precodeSums 0 9)))
   \<and> checkPrecode [] 0 9 = NONE"
  by (simp add: checkPrecode_def precodeSums_two_ones overflowDetected_def nonZeroCount_def
      histogramToLookUp_def POWER_OF_TWO_SPECIAL_CASES_def precode_eval)

theorem checkPrecode_overflow_witness:
  "precodeSums 0 73 = (536871011, 0, 536871011)
   \<and> overflowDetected 0 536871011
   \<and> checkPrecode [] 0 73 = INVALID_CODE_LENGTHS"
proof -
  have ov: "overflowDetected 0 536871011"
    by (simp add: overflowDetected_def precode_eval)
  have "POWER_OF_TWO_SPECIAL_CASES ! unat (nonZeroCount 536871011) \<noteq> histogramToLookUp 536871011"
    by (simp add: nonZeroCount_def histogramToLookUp_def POWER_OF_TWO_SPECIAL_CASES_def
        precode_eval)
  then show ?thesis
    using ov checkPrecode_overflow [OF precodeSums_three_ones ov, of "[]"]
    by (simp add: precodeSums_three_ones)
qed

text \<open>
  Claim C4 says that \<^verbatim>\<open>checkPrecode\<close> returns \<^verbatim>\<open>NONE\<close> for every precode whose histogram is
  that of a valid complete Huffman tree. The 19 code lengths 7 (sixteen times), 1, 2, 3
  (\<open>next4Bits = 15\<close>, \<open>next57Bits = 59109745109237759\<close>) have the histogram
  1:1 2:1 3:1 7:16, which the source lists among the valid ones and whose tree is complete.
  The count of 16 does not fit the 4 bits of its member, \<^verbatim>\<open>POWER_OF_TWO_SPECIAL_CASES\<close> has
  no entry for the non-zero count 19, and \<^verbatim>\<open>checkPrecode\<close> returns
  \<^verbatim>\<open>INVALID_CODE_LENGTHS\<close>, whatever the table of valid histograms is.
\<close>

theorem checkPrecode_rejects_complete_tree:
  "lengthHistogram (precodeLengths 15 59109745109237759) = [1, 1, 1, 0, 0, 0, 16]
   \<and> completeHuffmanTree [1, 1, 1, 0, 0, 0, 16]
   \<and> checkPrecode VALID_HISTOGRAMS 15 59109745109237759 = INVALID_CODE_LENGTHS"
proof (intro conjI)
  show "lengthHistogram (precodeLengths 15 59109745109237759) = [1, 1, 1, 0, 0, 0, 16]"
    by (simp add: lengthHistogram_def precodeLengths_def PRECODE_BITS_def upt_19 upt_1_8)
  show "completeHuffmanTree [1, 1, 1, 0, 0, 0, 16]"
    by (simp add: completeHuffmanTree_def upt_1_8)
  show "checkPrecode VALID_HISTOGRAMS 15 59109745109237759 = INVALID_CODE_LENGTHS"
    by (simp add: checkPrecode_def precodeSums_sixteen_sevens nonZeroCount_def
        histogramToLookUp_def POWER_OF_TWO_SPECIAL_CASES_def overflowDetected_def precode_eval)
qed


section \<open>Properties of the cache\<close>

lemma cache_test_iff: "cache_test c key \<longleftrightarrow> key \<in> fst ` set (c_entries c)"
  by (simp add: cache_test_def map_of_eq_None_iff)

lemma cache_test_touch [simp]: "cache_test (cache_touch c key) k = cache_test c k"
proof (cases "map_of (c_entries c) key")
  case None
  then show ?thesis by (simp add: cache_touch_def)
next
  case (Some v)
  then have "key \<in> fst ` set (c_entries c)" by (metis map_of_eq_None_iff option.distinct(1))
  then show ?thesis using Some by (auto simp: cache_touch_def cache_test_iff)
qed

lemma c_capacity_touch [simp]: "c_capacity (cache_touch c key) = c_capacity c"
  by (simp add: cache_touch_def split: option.splits)

lemma cache_get_None: "fst (cache_get c key) = None \<longleftrightarrow> \<not> cache_test c key"
  by (simp add: cache_get_def cache_test_def split: option.splits)

lemma cache_get_miss: "cache_get c key = (None, c') \<Longrightarrow> c' = c \<and> \<not> cache_test c key"
  by (auto simp: cache_get_def cache_test_def split: option.splits)

lemma cache_test_get [simp]: "cache_test (snd (cache_get c key)) k = cache_test c k"
  by (simp add: cache_get_def split: option.splits)

lemma c_capacity_get [simp]: "c_capacity (snd (cache_get c key)) = c_capacity c"
  by (simp add: cache_get_def split: option.splits)

lemma cache_test_evict [simp]: "cache_test (cache_evict c key) k \<longleftrightarrow> k \<noteq> key \<and> cache_test c k"
  by (auto simp: cache_evict_def cache_test_iff)

lemma c_capacity_evict [simp]: "c_capacity (cache_evict c key) = c_capacity c"
  by (simp add: cache_evict_def)

lemma c_capacity_clear [simp]: "c_capacity (cache_clear c) = c_capacity c"
  by (simp add: cache_clear_def)

lemma c_capacity_insert [simp]: "c_capacity (cache_insert c key v) = c_capacity c"
  by (simp add: cache_insert_def cache_shrinkTo_def Let_def)

lemma cache_test_insert: "cache_test (cache_insert c key v) k \<Longrightarrow> k = key \<or> cache_test c k"
  by (auto simp: cache_insert_def cache_shrinkTo_def cache_test_iff Let_def
           split: if_splits dest: in_set_dropD)

lemma cache_insert_clear:
  "c_capacity c \<noteq> 0 \<Longrightarrow> c_entries (cache_insert (cache_clear c) key v) = [(key, v)]"
  by (simp add: cache_insert_def cache_clear_def cache_test_def cache_shrinkTo_def)

section \<open>Properties of the thread pool\<close>

lemma takeFirstTask_emplace_back:
  assumes "sorted_wrt (<) (map fst tasks)" and "(p, pending) \<in> set tasks" and "pending \<noteq> []"
    and "p \<le> priority"
  shows "map_option fst (takeFirstTask (emplace_back_at priority task tasks))
           = map_option fst (takeFirstTask tasks)"
  using assms
proof (induction tasks)
  case Nil
  then show ?case by simp
next
  case (Cons a tasks)
  obtain q qs where a: "a = (q, qs)" by (cases a)
  have above: "\<forall>x \<in> set tasks. q < fst x" using Cons.prems(1) a by auto
  show ?case
  proof (cases "(p, pending) = (q, qs)")
    case True
    then obtain t ts where qs: "qs = t # ts" using Cons.prems(3) by (cases qs) auto
    then show ?thesis using a True Cons.prems(4) by auto
  next
    case False
    then have mem: "(p, pending) \<in> set tasks" using Cons.prems(2) a by auto
    then have qp: "q < p" using above by force
    then have gt: "q < priority" using Cons.prems(4) by simp
    have ih: "map_option fst (takeFirstTask (emplace_back_at priority task tasks))
                = map_option fst (takeFirstTask tasks)"
      using Cons.IH Cons.prems(1,3,4) mem by simp
    show ?thesis
    proof (cases qs)
      case Nil
      then show ?thesis using a gt ih
        by (cases "takeFirstTask (emplace_back_at priority task tasks)";
            cases "takeFirstTask tasks") (auto split: prod.splits)
    next
      case (Cons t ts)
      then show ?thesis using a gt by simp
    qed
  qed
qed

section \<open>The map of the prefetches in flight\<close>

lemma map_of_keys: "map_of xs k \<noteq> None \<longleftrightarrow> k \<in> fst ` set xs"
  by (simp add: map_of_eq_None_iff)

lemma map_of_filter_keys:
  "map_of (filter (\<lambda>e. fst e \<noteq> key) xs) k \<noteq> None \<Longrightarrow> map_of xs k \<noteq> None"
  by (simp only: map_of_keys) auto

lemma sorted_keys_filter:
  "sorted_wrt (<) (map fst xs) \<Longrightarrow> sorted_wrt (<) (map fst (filter (\<lambda>e. fst e \<noteq> key) xs))"
  by (induction xs) auto

lemma emplace_prefetching_keys:
  "fst ` set (emplace_prefetching key fut xs) = insert key (fst ` set xs)"
proof (induction xs)
  case Nil
  then show ?case by simp
next
  case (Cons a xs)
  obtain k f where a: "a = (k, f)" by (cases a)
  show ?case using Cons a by (cases "key = k"; cases "key < k") auto
qed

lemma emplace_prefetching_sorted:
  "sorted_wrt (<) (map fst xs) \<Longrightarrow> sorted_wrt (<) (map fst (emplace_prefetching key fut xs))"
proof (induction xs)
  case Nil
  then show ?case by simp
next
  case (Cons a xs)
  obtain k f where a: "a = (k, f)" by (cases a)
  have above: "\<forall>x \<in> fst ` set xs. k < x" using Cons.prems a by simp
  show ?case
  proof (cases "key = k")
    case True
    then show ?thesis using Cons.prems a by simp
  next
    case False
    show ?thesis
    proof (cases "key < k")
      case True
      then show ?thesis using Cons.prems a above by auto
    next
      case ge: False
      then have "k < key" using False by simp
      then have "\<forall>x \<in> fst ` set (emplace_prefetching key fut xs). k < x"
        using above by (simp add: emplace_prefetching_keys)
      then show ?thesis using Cons a False ge by simp
    qed
  qed
qed

section \<open>The invariant of the block fetcher\<close>

lemma fetcherInv_frame [simp]:
  "fetcherInv (s\<lparr>m_blockFinder := finder\<rparr>) = fetcherInv s"
  "fetcherInv (s\<lparr>m_fetchingStrategy := strategy\<rparr>) = fetcherInv s"
  "fetcherInv (s\<lparr>m_threadPool := pool\<rparr>) = fetcherInv s"
  "fetcherInv (s\<lparr>m_prefetchCount := n\<rparr>) = fetcherInv s"
  by (simp_all add: fetcherInv_def)

lemma isInCacheOrQueue_frame [simp]:
  "isInCacheOrQueue (s\<lparr>m_blockFinder := finder\<rparr>) k = isInCacheOrQueue s k"
  "isInCacheOrQueue (s\<lparr>m_fetchingStrategy := strategy\<rparr>) k = isInCacheOrQueue s k"
  "isInCacheOrQueue (s\<lparr>m_threadPool := pool\<rparr>) k = isInCacheOrQueue s k"
  "isInCacheOrQueue (s\<lparr>m_prefetchCount := n\<rparr>) k = isInCacheOrQueue s k"
  by (simp_all add: isInCacheOrQueue_def)

lemma new_fetcherInv:
  assumes "BlockFetcher_new env blockFinder parallelization strategy = Inr s"
  shows "fetcherInv s"
proof -
  have "16 \<le> unat (max 16 par)" for par :: size_t
  proof -
    have "(16 :: size_t) \<le> max 16 par" by simp
    then have "unat (16 :: size_t) \<le> unat (max 16 par)" by (simp only: word_le_nat_alt)
    then show ?thesis by simp
  qed
  then show ?thesis
    using assms
    by (auto simp: BlockFetcher_new_def fetcherInv_def cache_new_def cache_test_def Let_def
             split: option.splits)
qed

lemma insertIntoCache_fetcherInv:
  "fetcherInv s \<Longrightarrow> fetcherInv (insertIntoCache env s blockOffset blockData)"
  by (simp add: insertIntoCache_def fetcherInv_def Let_def)

lemma clearCache_fetcherInv: "fetcherInv s \<Longrightarrow> fetcherInv (clearCache s)"
  by (simp add: clearCache_def fetcherInv_def)

lemma submitTask_fetcherInv:
  assumes "fetcherInv s" and "\<not> isInCacheOrQueue s (t_blockOffset task)"
  shows "fetcherInv (submitTask s task priority)"
  using assms
  by (simp add: submitTask_def fetcherInv_def isInCacheOrQueue_def submissionOk_def)

lemma takeFromPrefetchQueue_fetcherInv:
  assumes "fetcherInv s"
  shows "fetcherInv (snd (takeFromPrefetchQueue s blockOffset))"
proof (cases "map_of (m_prefetching s) blockOffset")
  case None
  then show ?thesis using assms by (simp add: takeFromPrefetchQueue_def)
next
  case (Some fut)
  have "\<not> cache_test (m_prefetchCache s) k"
    if "map_of (filter (\<lambda>e. fst e \<noteq> blockOffset) (m_prefetching s)) k \<noteq> None" for k
    using map_of_filter_keys [OF that] assms by (simp add: fetcherInv_def)
  then show ?thesis
    using assms Some
    by (simp add: takeFromPrefetchQueue_def fetcherInv_def sorted_keys_filter
             del: map_of_eq_None_iff)
qed

lemma getFromCaches_fetcherInv:
  assumes "fetcherInv s" and "getFromCaches env s blockOffset = (r, s')"
  shows "fetcherInv s'"
proof (cases "map_of (m_prefetching s) blockOffset")
  case (Some fut)
  then have "s' = snd (takeFromPrefetchQueue s blockOffset)"
    using assms(2) by (simp add: getFromCaches_def takeFromPrefetchQueue_def)
  then show ?thesis using assms(1) by (simp add: takeFromPrefetchQueue_fetcherInv)
next
  case None
  note q = None
  show ?thesis
  proof (cases "fst (cache_get (m_cache s) blockOffset)")
    case (Some v)
    then have "s' = s\<lparr>m_cache := snd (cache_get (m_cache s) blockOffset)\<rparr>"
      using assms(2) q
      by (auto simp: getFromCaches_def takeFromPrefetchQueue_def split: prod.splits option.splits)
    then show ?thesis using assms(1) by (simp add: fetcherInv_def)
  next
    case None
    let ?s2 = "s\<lparr>m_cache := snd (cache_get (m_cache s) blockOffset)\<rparr>"
    have inv2: "fetcherInv ?s2" using assms(1) by (simp add: fetcherInv_def)
    show ?thesis
    proof (cases "fst (cache_get (m_prefetchCache s) blockOffset)")
      case pNone: None
      then have "s' = ?s2\<lparr>m_prefetchCache := snd (cache_get (m_prefetchCache s) blockOffset)\<rparr>"
        using assms(2) q None
        by (auto simp: getFromCaches_def takeFromPrefetchQueue_def Let_def
                 split: prod.splits option.splits)
      then show ?thesis using inv2 by (simp add: fetcherInv_def)
    next
      case (Some v)
      let ?s3 = "?s2\<lparr>m_prefetchCache :=
                       cache_evict (snd (cache_get (m_prefetchCache s) blockOffset)) blockOffset\<rparr>"
      have "s' = insertIntoCache env ?s3 blockOffset v"
        using assms(2) q None Some
        by (auto simp: getFromCaches_def takeFromPrefetchQueue_def Let_def
                 split: prod.splits option.splits)
      moreover have "fetcherInv ?s3" using inv2 by (simp add: fetcherInv_def)
      ultimately show ?thesis by (simp add: insertIntoCache_fetcherInv)
    qed
  qed
qed

lemma getFromCaches_miss:
  assumes "getFromCaches env s blockOffset = ((None, None), s')"
  shows "\<not> isInCacheOrQueue s' blockOffset"
proof -
  have q: "map_of (m_prefetching s) blockOffset = None"
    using assms by (auto simp: getFromCaches_def takeFromPrefetchQueue_def split: option.splits)
  have c: "fst (cache_get (m_cache s) blockOffset) = None"
    using assms q
    by (auto simp: getFromCaches_def takeFromPrefetchQueue_def Let_def
             split: option.splits prod.splits)
  then have c': "snd (cache_get (m_cache s) blockOffset) = m_cache s"
    by (simp add: cache_get_def split: option.splits)
  have p: "fst (cache_get (m_prefetchCache s) blockOffset) = None"
    using assms q c
    by (auto simp: getFromCaches_def takeFromPrefetchQueue_def Let_def
             split: option.splits prod.splits)
  then have p': "snd (cache_get (m_prefetchCache s) blockOffset) = m_prefetchCache s"
    by (simp add: cache_get_def split: option.splits)
  have "s' = s\<lparr>m_cache := m_cache s, m_prefetchCache := m_prefetchCache s\<rparr>"
    using assms q c p c' p'
    by (auto simp: getFromCaches_def takeFromPrefetchQueue_def Let_def
             split: option.splits prod.splits)
  then show ?thesis
    using q c p by (simp add: isInCacheOrQueue_def cache_get_None)
qed

lemma processLoop_cases:
  assumes "processLoop env submitted ((off, fut) # prefetching) prefetchCache pool
             = (prefetching', prefetchCache', pool')"
  obtains
    (keep) rest' where "f_pending fut \<noteq> 0"
      "processLoop env submitted prefetching prefetchCache pool = (rest', prefetchCache', pool')"
      "prefetching' = (off, fut\<lparr>f_pending := f_pending fut - 1\<rparr>) # rest'"
  | (failed) e where "f_pending fut = 0"
      "decodeBlock env (t_blockOffset (f_task fut)) (t_nextBlockOffset (f_task fut)) = Inl e"
      "processLoop env submitted prefetching prefetchCache
           (taskTaken submitted (f_ticket fut) pool)
         = (prefetching', prefetchCache', pool')"
  | (harvested) result where "f_pending fut = 0"
      "decodeBlock env (t_blockOffset (f_task fut)) (t_nextBlockOffset (f_task fut)) = Inr result"
      "processLoop env submitted prefetching (cache_insert prefetchCache off result)
           (taskTaken submitted (f_ticket fut) pool)
         = (prefetching', prefetchCache', pool')"
proof (cases "f_pending fut = 0")
  case False
  obtain rest' cache' pool'' where
    r: "processLoop env submitted prefetching prefetchCache pool = (rest', cache', pool'')"
    by (cases "processLoop env submitted prefetching prefetchCache pool")
  then show ?thesis using assms False keep by (simp add: wait_for_def)
next
  case True
  then show ?thesis
    using assms failed harvested
    by (cases "decodeBlock env (t_blockOffset (f_task fut)) (t_nextBlockOffset (f_task fut))")
       (simp_all add: wait_for_def)
qed

lemma processLoop_subset:
  "processLoop env submitted prefetching prefetchCache pool = (prefetching', prefetchCache', pool')
    \<Longrightarrow> fst ` set prefetching' \<subseteq> fst ` set prefetching"
proof (induction prefetching arbitrary: prefetchCache pool prefetching' prefetchCache' pool')
  case Nil
  then show ?case by simp
next
  case (Cons a prefetching)
  obtain off fut where a: "a = (off, fut)" by (cases a)
  from Cons.prems [unfolded a] show ?case
  proof (cases rule: processLoop_cases)
    case (keep rest')
    then show ?thesis using Cons.IH [OF keep(2)] a by auto
  next
    case (failed e)
    then show ?thesis using Cons.IH [OF failed(3)] a by auto
  next
    case (harvested result)
    then show ?thesis using Cons.IH [OF harvested(3)] a by auto
  qed
qed

lemma processLoop_sorted:
  "processLoop env submitted prefetching prefetchCache pool = (prefetching', prefetchCache', pool')
    \<Longrightarrow> sorted_wrt (<) (map fst prefetching) \<Longrightarrow> sorted_wrt (<) (map fst prefetching')"
proof (induction prefetching arbitrary: prefetchCache pool prefetching' prefetchCache' pool')
  case Nil
  then show ?case by simp
next
  case (Cons a prefetching)
  obtain off fut where a: "a = (off, fut)" by (cases a)
  have above: "\<forall>x \<in> fst ` set prefetching. off < x" using Cons.prems(2) a by simp
  have srt: "sorted_wrt (<) (map fst prefetching)" using Cons.prems(2) by simp
  from Cons.prems(1) [unfolded a] show ?case
  proof (cases rule: processLoop_cases)
    case (keep rest')
    have "\<forall>x \<in> fst ` set rest'. off < x"
      using above processLoop_subset [OF keep(2)] by blast
    then show ?thesis using Cons.IH [OF keep(2) srt] keep(3) by simp
  next
    case (failed e)
    then show ?thesis using Cons.IH [OF failed(3) srt] by simp
  next
    case (harvested result)
    then show ?thesis using Cons.IH [OF harvested(3) srt] by simp
  qed
qed

lemma processLoop_capacity:
  "processLoop env submitted prefetching prefetchCache pool = (prefetching', prefetchCache', pool')
    \<Longrightarrow> c_capacity prefetchCache' = c_capacity prefetchCache"
proof (induction prefetching arbitrary: prefetchCache pool prefetching' prefetchCache' pool')
  case Nil
  then show ?case by simp
next
  case (Cons a prefetching)
  obtain off fut where a: "a = (off, fut)" by (cases a)
  from Cons.prems [unfolded a] show ?case
  proof (cases rule: processLoop_cases)
    case (keep rest')
    then show ?thesis using Cons.IH [OF keep(2)] by simp
  next
    case (failed e)
    then show ?thesis using Cons.IH [OF failed(3)] by simp
  next
    case (harvested result)
    then show ?thesis using Cons.IH [OF harvested(3)] by simp
  qed
qed

text \<open>
  What \<^verbatim>\<open>processReadyPrefetches\<close> adds to the prefetch cache are offsets whose futures it
  removes from \<^verbatim>\<open>m_prefetching\<close>.
\<close>

lemma processLoop_cache:
  "processLoop env submitted prefetching prefetchCache pool = (prefetching', prefetchCache', pool')
    \<Longrightarrow> sorted_wrt (<) (map fst prefetching) \<Longrightarrow> cache_test prefetchCache' k
    \<Longrightarrow> cache_test prefetchCache k
        \<or> (k \<in> fst ` set prefetching \<and> k \<notin> fst ` set prefetching')"
proof (induction prefetching arbitrary: prefetchCache pool prefetching' prefetchCache' pool')
  case Nil
  then show ?case by simp
next
  case (Cons a prefetching)
  obtain off fut where a: "a = (off, fut)" by (cases a)
  have above: "\<forall>x \<in> fst ` set prefetching. off < x" using Cons.prems(2) a by simp
  have srt: "sorted_wrt (<) (map fst prefetching)" using Cons.prems(2) by simp
  from Cons.prems(1) [unfolded a] show ?case
  proof (cases rule: processLoop_cases)
    case (keep rest')
    from Cons.IH [OF keep(2) srt Cons.prems(3)]
    have d: "cache_test prefetchCache k
               \<or> (k \<in> fst ` set prefetching \<and> k \<notin> fst ` set rest')" .
    show ?thesis
    proof (cases "cache_test prefetchCache k")
      case True
      then show ?thesis by simp
    next
      case False
      then have k: "k \<in> fst ` set prefetching" and nk: "k \<notin> fst ` set rest'"
        using d by blast+
      have "off < k" using above k by blast
      then have "k \<noteq> off" by simp
      then have "k \<notin> fst ` set prefetching'" using nk keep(3) by simp
      then show ?thesis using k a by simp
    qed
  next
    case (failed e)
    from Cons.IH [OF failed(3) srt Cons.prems(3)] show ?thesis using a by auto
  next
    case (harvested result)
    from Cons.IH [OF harvested(3) srt Cons.prems(3)]
    have d: "cache_test (cache_insert prefetchCache off result) k
               \<or> (k \<in> fst ` set prefetching \<and> k \<notin> fst ` set prefetching')" .
    show ?thesis
    proof (cases "cache_test (cache_insert prefetchCache off result) k")
      case False
      then show ?thesis using d a by auto
    next
      case True
      then have ko: "k = off \<or> cache_test prefetchCache k" by (rule cache_test_insert)
      have "\<forall>x \<in> fst ` set prefetching'. off < x"
        using above processLoop_subset [OF harvested(3)] by blast
      then have "off \<notin> fst ` set prefetching'" by auto
      then show ?thesis using ko a by auto
    qed
  qed
qed

lemma processReadyPrefetches_fetcherInv:
  assumes "fetcherInv s"
  shows "fetcherInv (processReadyPrefetches env s)"
proof -
  obtain p' c' pool' where
    r: "processLoop env (length (submissions s)) (m_prefetching s) (m_prefetchCache s)
          (m_threadPool s) = (p', c', pool')"
    by (cases "processLoop env (length (submissions s)) (m_prefetching s) (m_prefetchCache s)
                 (m_threadPool s)")
  have d: "sorted_wrt (<) (map fst (m_prefetching s))" using assms by (simp add: fetcherInv_def)
  have dis: "\<forall>k \<in> fst ` set (m_prefetching s). \<not> cache_test (m_prefetchCache s) k"
    using assms by (simp only: fetcherInv_def map_of_keys) blast
  have srt: "sorted_wrt (<) (map fst p')" using processLoop_sorted [OF r d] .
  have "\<not> cache_test c' k" if "map_of p' k \<noteq> None" for k
  proof
    assume t: "cache_test c' k"
    from that have k: "k \<in> fst ` set p'" by (simp only: map_of_keys)
    then have "k \<in> fst ` set (m_prefetching s)" using processLoop_subset [OF r] by blast
    then have "\<not> cache_test (m_prefetchCache s) k" using dis by blast
    then have "k \<notin> fst ` set p'" using processLoop_cache [OF r d t] by blast
    then show False using k by simp
  qed
  then show ?thesis
    using assms r srt
    by (simp add: processReadyPrefetches_def fetcherInv_def del: map_of_eq_None_iff)
qed

lemma touchInCacheIfExists_fetcherInv:
  "fetcherInv s \<Longrightarrow> fetcherInv (touchInCacheIfExists k s)"
  by (simp add: touchInCacheIfExists_def fetcherInv_def Let_def)

lemma fold_touch_fetcherInv:
  "fetcherInv s \<Longrightarrow> fetcherInv (fold touchInCacheIfExists ks s)"
  by (induction ks arbitrary: s) (simp_all add: touchInCacheIfExists_fetcherInv)

lemma submitPrefetchTask_fetcherInv:
  assumes "fetcherInv s" and "\<not> isInCacheOrQueue s offset"
  shows "fetcherInv (submitPrefetchTask sched s offset nextOffset)"
proof -
  let ?task = "\<lparr> t_blockOffset = offset, t_nextBlockOffset = nextOffset \<rparr>"
  let ?s2 = "submitTask (s\<lparr>m_prefetchCount := m_prefetchCount s + 1\<rparr>) ?task 0"
  let ?fut = "\<lparr> f_task = ?task, f_ticket = length (submissions s),
                f_pending = prefetchPending sched offset \<rparr>"
  have inv2: "fetcherInv ?s2"
    using assms by (intro submitTask_fetcherInv) simp_all
  have np: "\<not> cache_test (m_prefetchCache ?s2) offset"
    using assms(2) by (simp add: submitTask_def isInCacheOrQueue_def)
  have s': "submitPrefetchTask sched s offset nextOffset
              = ?s2\<lparr>m_prefetching := emplace_prefetching offset ?fut (m_prefetching ?s2)\<rparr>"
    by (simp add: submitPrefetchTask_def Let_def)
  have srt: "sorted_wrt (<) (map fst (emplace_prefetching offset ?fut (m_prefetching ?s2)))"
    using inv2 by (simp add: fetcherInv_def emplace_prefetching_sorted)
  have dis: "\<not> cache_test (m_prefetchCache ?s2) k"
    if "map_of (emplace_prefetching offset ?fut (m_prefetching ?s2)) k \<noteq> None" for k
  proof -
    from that have "k \<in> fst ` set (emplace_prefetching offset ?fut (m_prefetching ?s2))"
      by (simp only: map_of_keys)
    then have "k = offset \<or> k \<in> fst ` set (m_prefetching ?s2)"
      by (simp only: emplace_prefetching_keys insert_iff)
    then have "k = offset \<or> map_of (m_prefetching ?s2) k \<noteq> None"
      by (simp only: map_of_keys)
    then show ?thesis using np inv2 by (auto simp: fetcherInv_def)
  qed
  show ?thesis
    unfolding s' using inv2 srt dis by (simp add: fetcherInv_def del: map_of_eq_None_iff)
qed

lemma prefetchBody_cases:
  assumes "prefetchBody env sched part offsets idx queuedResult s = (ctl, s', queuedResult')"
  obtains (same) "s' = s" "queuedResult' = queuedResult"
  | (waited) po no finder' pool' where
      "waitOnBlockFinder env (length (submissions s)) queuedResult idx (m_blockFinder s)
         (m_threadPool s) = ((po, no), finder', queuedResult', pool')"
      "s' = s\<lparr>m_blockFinder := finder', m_threadPool := pool'\<rparr>"
  | (submitted) po no finder' pool' offset nextOffset where
      "waitOnBlockFinder env (length (submissions s)) queuedResult idx (m_blockFinder s)
         (m_threadPool s) = ((po, no), finder', queuedResult', pool')"
      "\<not> threadPoolSaturated s"
      "\<not> isInCacheOrQueue (s\<lparr>m_blockFinder := finder', m_threadPool := pool'\<rparr>) offset"
      "s' = submitPrefetchTask sched (s\<lparr>m_blockFinder := finder', m_threadPool := pool'\<rparr>)
              offset nextOffset"
proof -
  obtain po no finder' q' pool' where
    w: "waitOnBlockFinder env (length (submissions s)) queuedResult idx (m_blockFinder s)
          (m_threadPool s) = ((po, no), finder', q', pool')"
    by (cases "waitOnBlockFinder env (length (submissions s)) queuedResult idx (m_blockFinder s)
                 (m_threadPool s)") auto
  let ?s1 = "s\<lparr>m_blockFinder := finder', m_threadPool := pool'\<rparr>"
  have "(s' = s \<and> queuedResult' = queuedResult) \<or> (s' = ?s1 \<and> queuedResult' = q')
        \<or> (\<exists>offset nextOffset. \<not> isInCacheOrQueue ?s1 offset \<and> \<not> threadPoolSaturated s
              \<and> queuedResult' = q' \<and> s' = submitPrefetchTask sched ?s1 offset nextOffset)"
    using assms w
    by (simp add: prefetchBody_def Let_def split: if_splits option.splits) blast+
  then show ?thesis using same waited submitted w by blast
qed

lemma prefetchBody_fetcherInv:
  assumes "fetcherInv s"
    and "prefetchBody env sched part offsets idx queuedResult s = (ctl, s', queuedResult')"
  shows "fetcherInv s'"
  using assms(2)
proof (cases rule: prefetchBody_cases)
  case same
  then show ?thesis using assms(1) by simp
next
  case (waited po no finder' pool')
  then show ?thesis using assms(1) by simp
next
  case (submitted po no finder' pool' offset nextOffset)
  have "fetcherInv (s\<lparr>m_blockFinder := finder', m_threadPool := pool'\<rparr>)"
    using assms(1) by simp
  then show ?thesis
    unfolding submitted(4) using submitted(3) by (rule submitPrefetchTask_fetcherInv)
qed

lemma prefetchLoop_fetcherInv:
  "fetcherInv s \<Longrightarrow> prefetchLoop env sched part offsets idxs queuedResult s = (s', queuedResult')
    \<Longrightarrow> fetcherInv s'"
proof (induction idxs arbitrary: s queuedResult)
  case Nil
  then show ?case by simp
next
  case (Cons idx idxs)
  obtain ctl s1 q1 where
    b: "prefetchBody env sched part offsets idx queuedResult s = (ctl, s1, q1)"
    by (cases "prefetchBody env sched part offsets idx queuedResult s")
  have inv1: "fetcherInv s1" using prefetchBody_fetcherInv [OF Cons.prems(1) b] .
  show ?case
  proof (cases ctl)
    case Break
    then show ?thesis using Cons.prems(2) b inv1 by simp
  next
    case Continue
    then show ?thesis using Cons.prems(2) b inv1 Cons.IH by simp
  qed
qed

lemma prefetchNewBlocks_fetcherInv:
  assumes "fetcherInv s"
    and "prefetchNewBlocks env sched part queuedResult s = (r, s', queuedResult')"
  shows "fetcherInv s'"
proof -
  let ?s1 = "processReadyPrefetches env s"
  have inv1: "fetcherInv ?s1" using assms(1) by (rule processReadyPrefetches_fetcherInv)
  show ?thesis
  proof (cases "threadPoolSaturated ?s1")
    case True
    then show ?thesis using assms(2) inv1 by (simp add: prefetchNewBlocks_def Let_def)
  next
    case False
    let ?idxs = "fs_prefetch env (m_fetchingStrategy ?s1) (c_capacity (m_prefetchCache ?s1))"
    obtain offs finder' where
      o: "offsetsLoop env part ?idxs (m_blockFinder ?s1) (replicate (length ?idxs) 0) = (offs, finder')"
      by (cases "offsetsLoop env part ?idxs (m_blockFinder ?s1) (replicate (length ?idxs) 0)")
    let ?s3 = "fold touchInCacheIfExists (rev offs) (?s1\<lparr>m_blockFinder := finder'\<rparr>)"
    have inv3: "fetcherInv ?s3" using inv1 by (intro fold_touch_fetcherInv) simp
    obtain s4 q4 where l: "prefetchLoop env sched part offs ?idxs queuedResult ?s3 = (s4, q4)"
      by (cases "prefetchLoop env sched part offs ?idxs queuedResult ?s3")
    have inv4: "fetcherInv s4" using prefetchLoop_fetcherInv [OF inv3 l] .
    have "s' = s4\<lparr>m_threadPool := workersTake (workerTakes sched) (m_threadPool s4)\<rparr>"
      using assms(2) False o l by (auto simp: prefetchNewBlocks_def Let_def split: if_splits)
    then show ?thesis using inv4 by simp
  qed
qed

lemma waitForFuture_fetcherInv:
  "fetcherInv s \<Longrightarrow> waitForFuture env sched part fut pending s = (r, s') \<Longrightarrow> fetcherInv s'"
proof (induction env sched part fut pending s rule: waitForFuture.induct)
  case (1 env sched part fut s)
  then show ?case by auto
next
  case (2 env sched part fut pending s)
  obtain r1 s1 q1 where
    p: "prefetchNewBlocks env sched part (Some (fut\<lparr>f_pending := pending\<rparr>)) s = (r1, s1, q1)"
    by (cases "prefetchNewBlocks env sched part (Some (fut\<lparr>f_pending := pending\<rparr>)) s")
  have inv1: "fetcherInv s1" using prefetchNewBlocks_fetcherInv [OF "2.prems"(1) p] .
  show ?case
  proof (cases r1)
    case (Inl e)
    then show ?thesis using "2.prems"(2) p inv1 by simp
  next
    case (Inr u)
    then show ?thesis using "2.prems"(2) p inv1 "2.IH" [OF p [symmetric]] by simp
  qed
qed

lemma returnResult_fetcherInv:
  assumes "fetcherInv s"
    and "returnResult env sched part blockOffset cachedResult queuedResult s = (r, s')"
  shows "fetcherInv s'"
proof (cases cachedResult)
  case (Some v)
  then show ?thesis using assms by (simp add: returnResult_def)
next
  case None
  note c = None
  show ?thesis
  proof (cases queuedResult)
    case None
    then show ?thesis using assms c by (simp add: returnResult_def)
  next
    case (Some fut)
    obtain r1 s1 where w: "waitForFuture env sched part fut (f_pending fut) s = (r1, s1)"
      by (cases "waitForFuture env sched part fut (f_pending fut) s")
    have inv1: "fetcherInv s1" using waitForFuture_fetcherInv [OF assms(1) w] .
    then show ?thesis
      using assms(2) c Some w
      by (auto simp: returnResult_def insertIntoCache_fetcherInv split: sum.splits)
  qed
qed

lemma fetchAndReturn_fetcherInv:
  assumes "fetcherInv s"
    and "fetchAndReturn env sched part blockOffset idx cachedResult queuedResult s = (r, s')"
  shows "fetcherInv s'"
proof -
  let ?s1 = "s\<lparr>m_fetchingStrategy := fs_fetch env (m_fetchingStrategy s) idx\<rparr>"
  let ?q = "case cachedResult of Some result \<Rightarrow> None | None \<Rightarrow> queuedResult"
  obtain r1 s2 q2 where p: "prefetchNewBlocks env sched part ?q ?s1 = (r1, s2, q2)"
    by (cases "prefetchNewBlocks env sched part ?q ?s1")
  have inv2: "fetcherInv s2"
    using prefetchNewBlocks_fetcherInv [OF _ p] assms(1) by simp
  show ?thesis
  proof (cases r1)
    case (Inl e)
    then show ?thesis using assms(2) p inv2 by (simp add: fetchAndReturn_def Let_def)
  next
    case (Inr u)
    then have "returnResult env sched part blockOffset cachedResult q2 s2 = (r, s')"
      using assms(2) p by (simp add: fetchAndReturn_def Let_def)
    then show ?thesis using returnResult_fetcherInv [OF inv2] by simp
  qed
qed

lemma get_fetcherInv:
  assumes "fetcherInv s"
    and "get env sched s blockOffset dataBlockIndex onlyCheckCaches part = (r, s')"
  shows "fetcherInv s'"
proof -
  obtain cachedResult queuedResult s1 where
    g: "getFromCaches env s blockOffset = ((cachedResult, queuedResult), s1)"
    by (cases "getFromCaches env s blockOffset") auto
  have inv1: "fetcherInv s1" using getFromCaches_fetcherInv [OF assms(1) g] .
  show ?thesis
  proof (cases "case dataBlockIndex of Some i \<Rightarrow> Inr i
                | None \<Rightarrow> bf_find env (m_blockFinder s1) blockOffset")
    case (Inl e)
    then show ?thesis using assms(2) g inv1 by (simp add: get_def)
  next
    case (Inr idx)
    obtain nextBlockOffset finder' where
      n: "bf_get env (m_blockFinder s1) (idx + 1) = (nextBlockOffset, finder')"
      by (cases "bf_get env (m_blockFinder s1) (idx + 1)")
    let ?s2 = "s1\<lparr>m_blockFinder := finder'\<rparr>"
    have inv2: "fetcherInv ?s2" using inv1 by simp
    have unfolded: "(r, s') =
      (if cachedResult = None \<and> queuedResult = None
       then (if onlyCheckCaches then (Inr None, ?s2)
             else (case submitOnDemandTask sched ?s2 blockOffset nextBlockOffset of
                     (fut, s3) \<Rightarrow>
                       fetchAndReturn env sched part blockOffset idx cachedResult (Some fut) s3))
       else fetchAndReturn env sched part blockOffset idx cachedResult queuedResult ?s2)"
      using assms(2) g Inr n by (simp add: get_def Let_def)
    show ?thesis
    proof (cases "cachedResult = None \<and> queuedResult = None")
      case False
      then have "fetchAndReturn env sched part blockOffset idx cachedResult queuedResult ?s2
                   = (r, s')"
        using unfolded by (simp only: if_False)
      then show ?thesis using fetchAndReturn_fetcherInv [OF inv2] by simp
    next
      case True
      show ?thesis
      proof (cases onlyCheckCaches)
        case only: True
        then have "s' = ?s2" using unfolded True by simp
        then show ?thesis using inv2 by simp
      next
        case False
        have miss: "\<not> isInCacheOrQueue ?s2 blockOffset"
          using getFromCaches_miss [of env s blockOffset s1] g True by simp
        let ?task = "\<lparr> t_blockOffset = blockOffset,
                       t_nextBlockOffset = (case nextBlockOffset of Some n \<Rightarrow> n | None \<Rightarrow> maxSize) \<rparr>"
        let ?fut = "\<lparr> f_task = ?task, f_ticket = length (submissions ?s2),
                      f_pending = onDemandPending sched \<rparr>"
        let ?s3 = "submitTask ?s2 ?task 0"
        have inv3: "fetcherInv ?s3"
          using inv2 miss by (intro submitTask_fetcherInv) simp_all
        have "fetchAndReturn env sched part blockOffset idx cachedResult (Some ?fut) ?s3 = (r, s')"
          using unfolded True False by (simp add: Let_def submitOnDemandTask_def)
        then show ?thesis using fetchAndReturn_fetcherInv [OF inv3] by simp
      qed
    qed
  qed
qed

lemma fetcherReachable_inv: "fetcherReachable env s \<Longrightarrow> fetcherInv s"
proof (induction rule: fetcherReachable.induct)
  case (fetcher_new blockFinder parallelization strategy s)
  then show ?case by (rule new_fetcherInv)
next
  case (fetcher_get s sched blockOffset dataBlockIndex onlyCheckCaches part r s')
  then show ?case using get_fetcherInv by blast
next
  case (fetcher_clearCache s)
  then show ?case by (simp add: clearCache_fetcherInv)
next
  case (fetcher_workers s n)
  then show ?case by simp
qed

section \<open>The tasks in the queue\<close>
















lemma queueInv_frame [simp]:
  "queueInv q (s\<lparr>m_blockFinder := finder\<rparr>) = queueInv q s"
  "queueInv q (s\<lparr>m_fetchingStrategy := strategy\<rparr>) = queueInv q s"
  "queueInv q (s\<lparr>m_cache := cache\<rparr>) = queueInv q s"
  "queueInv q (s\<lparr>m_prefetchCache := prefetchCache\<rparr>) = queueInv q s"
  "queueInv q (s\<lparr>m_prefetchCount := n\<rparr>) = queueInv q s"
  by (simp_all add: queueInv_def heldTickets_def)





























section \<open>A run of the block fetcher\<close>

text \<open>
  The fetcher built with a parallelization of 2, and its state after
  \<^verbatim>\<open>get\<close> of the block at offset 8, which decodes that block on demand and
  prefetches the block at offset 800.
\<close>

lemma example_new: "BlockFetcher_new exampleEnv (Some ()) 2 () = Inr exampleFetcher"
  by (simp add: BlockFetcher_new_def exampleEnv_def exampleFetcher_def cache_new_def
      ThreadPool_new_def)

lemma workersTake_2:
  "workersTake 2 pool =
     (case workerTake pool of
        None \<Rightarrow> pool
      | Some (task, pool') \<Rightarrow>
          (case workerTake pool' of None \<Rightarrow> pool' | Some (task', pool'') \<Rightarrow> pool''))"
  by (simp add: numeral_2_eq_2 split: option.splits)

lemma example_get:
  "get exampleEnv exampleSchedule exampleFetcher 8 (Some 1) False None
     = (Inr (Some 8), exampleFetcherAfterGet)"
  by (simp add: get_def getFromCaches_def takeFromPrefetchQueue_def cache_get_def
      submitOnDemandTask_def submitTask_def submit_def fetchAndReturn_def prefetchNewBlocks_def
      processReadyPrefetches_def threadPoolSaturated_def size_pool_def prefetchBody_def
      waitOnBlockFinder.simps resultIsReady_def wait_for_def taskTaken_def
      isInCacheOrQueue_def cache_test_def cache_nextNthEviction_def submitPrefetchTask_def
      touchInCacheIfExists_def unprocessedTasksCount_def workerTake_def returnResult_def
      insertIntoCache_def cache_clear_def cache_insert_def cache_shrinkTo_def
      exampleEnv_def exampleSchedule_def exampleFetcher_def exampleFetcherAfterGet_def
      Let_def workersTake_2)

lemma example_reachable: "fetcherReachable exampleEnv exampleFetcherAfterGet"
  using fetcher_new [OF example_new] example_get by (rule fetcher_get)


text \<open>The pool of that fetcher after the submission of one prefetch.\<close>

lemma example_prefetch_pool:
  "m_threadPool (submitPrefetchTask exampleSchedule exampleFetcher 8 16)
     = \<lparr> m_threadPoolRunning = True,
         m_tasks = [(0, [\<lparr> t_blockOffset = 8, t_nextBlockOffset = 16 \<rparr>])],
         m_threads = 2 \<rparr>"
  by (simp add: submitPrefetchTask_def submitTask_def submit_def exampleFetcher_def Let_def)

section \<open>The capacities of the caches\<close>




section \<open>Insertion in sequential mode\<close>

lemma insertIntoCache_sequential_entries:
  assumes "fs_isSequential env (m_fetchingStrategy s)" and "c_capacity (m_cache s) \<noteq> 0"
  shows "c_entries (m_cache (insertIntoCache env s blockOffset blockData))
           = [(blockOffset, blockData)]"
  using assms by (simp add: insertIntoCache_def cache_insert_clear)

text \<open>
  Claim C9: whenever a block is inserted into the on-demand cache of a fetcher while the
  fetching strategy reports sequential access, the cache is cleared before the insertion:
  directly after \<^verbatim>\<open>insertIntoCache\<close> the on-demand cache holds exactly the entry just
  inserted. The states are those between two calls of the public member functions; the
  capacity of the on-demand cache, the only fact used, is the same in the states within
  a call.
\<close>

theorem insertIntoCache_sequential:
  assumes "fetcherReachable env s" and "fs_isSequential env (m_fetchingStrategy s)"
  shows "c_entries (m_cache (insertIntoCache env s blockOffset blockData))
           = [(blockOffset, blockData)]"
proof -
  have "16 \<le> c_capacity (m_cache s)"
    using fetcherReachable_inv [OF assms(1)] by (simp add: fetcherInv_def)
  then have "c_capacity (m_cache s) \<noteq> 0" by simp
  then show ?thesis using assms(2) by (rule insertIntoCache_sequential_entries [rotated])
qed

theorem insertIntoCache_sequential_witness:
  "fetcherReachable exampleEnv exampleFetcherAfterGet
   \<and> fs_isSequential exampleEnv (m_fetchingStrategy exampleFetcherAfterGet)
   \<and> c_entries (m_cache exampleFetcherAfterGet) = [(8, 8)]
   \<and> c_entries (m_cache (insertIntoCache exampleEnv exampleFetcherAfterGet 16 16)) = [(16, 16)]"
proof -
  have seq: "fs_isSequential exampleEnv (m_fetchingStrategy exampleFetcherAfterGet)"
    by (simp add: exampleEnv_def)
  have "c_entries (m_cache exampleFetcherAfterGet) = [(8, 8)]"
    by (simp add: exampleFetcherAfterGet_def)
  then show ?thesis
    using example_reachable seq insertIntoCache_sequential [OF example_reachable seq, of 16 16]
    by simp
qed

section \<open>Submissions\<close>

text \<open>
  Claim C5: over every sequence of calls of \<^verbatim>\<open>get\<close> and \<^verbatim>\<open>clearCache\<close>, with the prefetches
  that \<^verbatim>\<open>get\<close> starts and any activity of the workers in between, no decode task is
  submitted to the thread pool for an offset that, at the time of the submission, is a key
  of the map of the prefetches in flight, of the on-demand cache or of the prefetch cache.
  Every submission is recorded with these three tests, evaluated in the state in which it
  is made.
\<close>

theorem no_submission_while_cached_or_queued:
  assumes "fetcherReachable env s" and "sub \<in> set (submissions s)"
  shows "\<not> sub_inPrefetching sub \<and> \<not> sub_inCache sub \<and> \<not> sub_inPrefetchCache sub"
proof -
  have "list_all submissionOk (submissions s)"
    using fetcherReachable_inv [OF assms(1)] by (simp add: fetcherInv_def)
  then have "submissionOk sub" using assms(2) by (simp add: list_all_iff)
  then show ?thesis by (simp add: submissionOk_def)
qed

theorem no_submission_while_cached_or_queued_witness:
  "fetcherReachable exampleEnv exampleFetcherAfterGet
   \<and> submissions exampleFetcherAfterGet ! 1 \<in> set (submissions exampleFetcherAfterGet)
   \<and> sub_offset (submissions exampleFetcherAfterGet ! 1) = 800
   \<and> \<not> sub_inPrefetching (submissions exampleFetcherAfterGet ! 1)
   \<and> \<not> sub_inCache (submissions exampleFetcherAfterGet ! 1)
   \<and> \<not> sub_inPrefetchCache (submissions exampleFetcherAfterGet ! 1)"
proof -
  have mem: "submissions exampleFetcherAfterGet ! 1 \<in> set (submissions exampleFetcherAfterGet)"
    by (simp add: exampleFetcherAfterGet_def)
  have "sub_offset (submissions exampleFetcherAfterGet ! 1) = 800"
    by (simp add: exampleFetcherAfterGet_def)
  then show ?thesis
    using example_reachable mem no_submission_while_cached_or_queued [OF example_reachable mem]
    by simp
qed

section \<open>The priority of the on-demand task\<close>

text \<open>
  Claim C2, amended: the on-demand decode task is submitted to the thread pool at the
  priority 0, the priority of the prefetch submissions. The pool serves the tasks of one
  priority in the order of their submission, so a worker that chooses its next task
  chooses, after the submission of the on-demand task, the task it would have chosen
  before it, whenever a task of priority 0 or of a smaller priority value was pending.
\<close>

theorem onDemand_same_priority_as_prefetch:
  assumes "m_threadPoolRunning (m_threadPool s)"
    and "sorted_wrt (<) (map fst (m_tasks (m_threadPool s)))"
    and "(p, pending) \<in> set (m_tasks (m_threadPool s))" and "pending \<noteq> []" and "p \<le> 0"
  shows "sub_priority (last (submissions (snd (submitOnDemandTask sched s blockOffset nextBlockOffset)))) = 0
         \<and> sub_priority (last (submissions (submitPrefetchTask sched s prefetchBlockOffset nextPrefetchBlockOffset))) = 0
         \<and> map_option fst (workerTake (m_threadPool (snd (submitOnDemandTask sched s blockOffset nextBlockOffset))))
             = map_option fst (workerTake (m_threadPool s))"
proof -
  let ?task = "\<lparr> t_blockOffset = blockOffset,
                 t_nextBlockOffset = (case nextBlockOffset of Some n \<Rightarrow> n | None \<Rightarrow> maxSize) \<rparr>"
  have t: "map_option fst (takeFirstTask (emplace_back_at 0 ?task (m_tasks (m_threadPool s))))
             = map_option fst (takeFirstTask (m_tasks (m_threadPool s)))"
    using assms(2-5) by (rule takeFirstTask_emplace_back)
  have "map_option fst (workerTake (m_threadPool (snd (submitOnDemandTask sched s blockOffset nextBlockOffset))))
          = map_option fst (workerTake (m_threadPool s))"
    using t assms(1)
    by (cases "takeFirstTask (emplace_back_at 0 ?task (m_tasks (m_threadPool s)))";
        cases "takeFirstTask (m_tasks (m_threadPool s))")
       (auto simp: workerTake_def submitOnDemandTask_def submitTask_def submit_def Let_def)
  then show ?thesis
    by (simp add: submitOnDemandTask_def submitPrefetchTask_def submitTask_def Let_def)
qed

text \<open>
  The claim as it was stated, that a worker picks a pending on-demand task before any
  pending prefetch task, fails when a prefetch of the block at offset 8 is pending and the
  block at offset 800 is then requested on demand: both tasks are in the queue of the
  priority 0, and the worker takes the prefetch.
\<close>

theorem onDemand_priority_counterexample:
  "map sub_offset (submissions (snd (submitOnDemandTask exampleSchedule
       (submitPrefetchTask exampleSchedule exampleFetcher 8 16) 800 (Some 808)))) = [8, 800]
   \<and> map sub_priority (submissions (snd (submitOnDemandTask exampleSchedule
       (submitPrefetchTask exampleSchedule exampleFetcher 8 16) 800 (Some 808)))) = [0, 0]
   \<and> m_tasks (m_threadPool (snd (submitOnDemandTask exampleSchedule
       (submitPrefetchTask exampleSchedule exampleFetcher 8 16) 800 (Some 808))))
       = [(0, [\<lparr> t_blockOffset = 8, t_nextBlockOffset = 16 \<rparr>,
               \<lparr> t_blockOffset = 800, t_nextBlockOffset = 808 \<rparr>])]
   \<and> map_option fst (workerTake (m_threadPool (snd (submitOnDemandTask exampleSchedule
       (submitPrefetchTask exampleSchedule exampleFetcher 8 16) 800 (Some 808)))))
       = Some \<lparr> t_blockOffset = 8, t_nextBlockOffset = 16 \<rparr>"
  by (simp add: submitOnDemandTask_def submitPrefetchTask_def submitTask_def submit_def
      workerTake_def exampleFetcher_def exampleSchedule_def Let_def)

theorem onDemand_same_priority_as_prefetch_witness:
  "map_option fst (workerTake (m_threadPool (snd (submitOnDemandTask exampleSchedule
       (submitPrefetchTask exampleSchedule exampleFetcher 8 16) 800 (Some 808)))))
     = map_option fst (workerTake (m_threadPool
         (submitPrefetchTask exampleSchedule exampleFetcher 8 16)))"
proof -
  let ?s = "submitPrefetchTask exampleSchedule exampleFetcher 8 16"
  let ?task = "\<lparr> t_blockOffset = 8, t_nextBlockOffset = 16 \<rparr>"
  have run: "m_threadPoolRunning (m_threadPool ?s)" by (simp add: example_prefetch_pool)
  have srt: "sorted_wrt (<) (map fst (m_tasks (m_threadPool ?s)))"
    by (simp add: example_prefetch_pool)
  have mem: "(0, [?task]) \<in> set (m_tasks (m_threadPool ?s))" by (simp add: example_prefetch_pool)
  have ne: "[?task] \<noteq> []" by simp
  have le: "(0 :: int) \<le> 0" by simp
  show ?thesis
    using onDemand_same_priority_as_prefetch [OF run srt mem ne le, of exampleSchedule 800 "Some 808" 8 16]
    by simp
qed

section \<open>Failures of the decode tasks\<close>






end
